theory Spec2Isabelle
  imports Main
begin

section \<open>JavaScript values\<close>

text \<open>
  The validator of \<^verbatim>\<open>operations-ibm.js\<close> receives a parsed OpenAPI document and a
  configuration object. Both are plain data: trees of objects, arrays, strings, numbers,
  booleans and \<^verbatim>\<open>null\<close>; \<^verbatim>\<open>undefined\<close> is what reading a missing member gives.

  An object is the list of its own members in enumeration order (keys are distinct in
  a JavaScript object). A string is a list of code units below 256. A number is an
  integer (non-integral numbers are not part of the model).
\<close>

datatype js =
    JUndefined
  | JNull
  | JBool bool
  | JNum int
  | JStr string
  | JArr "js list"
  | JObj "(string \<times> js) list"

text \<open>
  A call either returns or throws. \<open>TypeError\<close> and \<open>RangeError\<close> are the exceptions
  the code can raise on plain data. \<open>Unsupported\<close> is not an exception: it marks an input
  on which the outcome depends on behaviour that is not modelled (converting a string to
  a number, members inherited from a built-in prototype, numbers of magnitude
  \<open>10^21\<close> and more printed as strings).
\<close>

datatype js_error = TypeError | RangeError | Unsupported

definition bindE :: "js_error + 'a \<Rightarrow> ('a \<Rightarrow> js_error + 'b) \<Rightarrow> js_error + 'b" where
  "bindE m f = (case m of Inl e \<Rightarrow> Inl e | Inr x \<Rightarrow> f x)"

text \<open>A loop over a list whose body may throw: the first exception ends the loop.\<close>

fun foldE :: "('a \<Rightarrow> 's \<Rightarrow> js_error + 's) \<Rightarrow> 'a list \<Rightarrow> 's \<Rightarrow> js_error + 's" where
  "foldE f [] s = Inr s"
| "foldE f (x # xs) s = bindE (f x s) (foldE f xs)"

text \<open>Truthiness: what \<^verbatim>\<open>if (v)\<close>, \<^verbatim>\<open>!v\<close> and \<^verbatim>\<open>v && ...\<close> test.\<close>

fun truthy :: "js \<Rightarrow> bool" where
  "truthy JUndefined = False"
| "truthy JNull = False"
| "truthy (JBool b) = b"
| "truthy (JNum n) = (n \<noteq> 0)"
| "truthy (JStr s) = (s \<noteq> [])"
| "truthy (JArr xs) = True"
| "truthy (JObj kvs) = True"

text \<open>
  \<^verbatim>\<open>v.name\<close> for the member names the source reads (\<^verbatim>\<open>$ref\<close>, \<^verbatim>\<open>consumes\<close>,
  \<^verbatim>\<open>produces\<close>, \<^verbatim>\<open>operationId\<close>, \<^verbatim>\<open>summary\<close>, \<^verbatim>\<open>parameters\<close>, \<^verbatim>\<open>responses\<close>,
  \<^verbatim>\<open>schema\<close>, \<^verbatim>\<open>type\<close>, \<^verbatim>\<open>required\<close>, \<^verbatim>\<open>x-sdk-exclude\<close>, \<^verbatim>\<open>paths\<close>, \<^verbatim>\<open>jsSpec\<close>,
  \<^verbatim>\<open>operations\<close>, the seven rule names and \<^verbatim>\<open>length\<close>). Reading a member of
  \<^verbatim>\<open>undefined\<close> or \<^verbatim>\<open>null\<close> throws; a missing member is \<^verbatim>\<open>undefined\<close>; of these
  names only \<^verbatim>\<open>length\<close> is a member of a string or an array.
\<close>

fun getp :: "js \<Rightarrow> string \<Rightarrow> js_error + js" where
  "getp JUndefined k = Inl TypeError"
| "getp JNull k = Inl TypeError"
| "getp (JBool b) k = Inr JUndefined"
| "getp (JNum n) k = Inr JUndefined"
| "getp (JStr s) k = Inr (if k = ''length'' then JNum (int (length s)) else JUndefined)"
| "getp (JArr xs) k = Inr (if k = ''length'' then JNum (int (length xs)) else JUndefined)"
| "getp (JObj kvs) k = Inr (case map_of kvs k of Some v \<Rightarrow> v | None \<Rightarrow> JUndefined)"

subsection \<open>Numbers and strings\<close>

definition digit_chr :: "nat \<Rightarrow> char" where
  "digit_chr n = ''0123456789'' ! n"

function show_nat :: "nat \<Rightarrow> string" where
  "show_nat n = (if n < 10 then [digit_chr n] else show_nat (n div 10) @ [digit_chr (n mod 10)])"
  by pat_completeness auto
termination
  by (relation "measure (\<lambda>n. n)") auto

declare show_nat.simps [simp del]

definition show_int :: "int \<Rightarrow> string" where
  "show_int n = (if n < 0 then CHR ''-'' # show_nat (nat (- n)) else show_nat (nat n))"

definition is_digit :: "char \<Rightarrow> bool" where
  "is_digit c = (c \<in> set ''0123456789'')"

text \<open>
  The key of an array index: \<^verbatim>\<open>"0"\<close>, or digits that do not start with \<^verbatim>\<open>0\<close>.
\<close>

definition index_key :: "string \<Rightarrow> nat option" where
  "index_key k =
     (if k = [] \<or> \<not> list_all is_digit k \<or> (hd k = CHR ''0'' \<and> k \<noteq> ''0'') then None
      else Some (foldl (\<lambda>a c. 10 * a + (of_char c - 48)) 0 k))"

text \<open>
  \<^verbatim>\<open>String.prototype.trim\<close>: the white space and line terminators below 256 are
  TAB, LF, VT, FF, CR, SP and NBSP.
\<close>

definition is_ws :: "char \<Rightarrow> bool" where
  "is_ws c = ((of_char c :: nat) \<in> {9, 10, 11, 12, 13, 32, 160})"

definition trim :: "string \<Rightarrow> string" where
  "trim s = rev (dropWhile is_ws (rev (dropWhile is_ws s)))"

text \<open>
  \<^verbatim>\<open>String.prototype.toLowerCase\<close> on code units below 256: \<^verbatim>\<open>A\<close> to \<^verbatim>\<open>Z\<close> and
  the capital letters U+00C0 to U+00DE (U+00D7 is the multiplication sign).
\<close>

definition lower_chr :: "char \<Rightarrow> char" where
  "lower_chr c =
     (let n = (of_char c :: nat) in
      if (65 \<le> n \<and> n \<le> 90) \<or> (192 \<le> n \<and> n \<le> 222 \<and> n \<noteq> 215) then char_of (n + 32) else c)"

definition toLowerCase :: "string \<Rightarrow> string" where
  "toLowerCase s = map lower_chr s"

text \<open>
  Conversion to a string, as \<^verbatim>\<open>toString()\<close>, a template literal, a property key and
  the elements of \<^verbatim>\<open>Array.prototype.join\<close> do it. An array joins its elements with a
  comma, \<^verbatim>\<open>undefined\<close> and \<^verbatim>\<open>null\<close> elements giving the empty string. A plain object
  gives \<^verbatim>\<open>[object Object]\<close>, unless it has a member \<^verbatim>\<open>toString\<close> of its own: that is
  data, not a function, and the conversion throws.
\<close>

fun to_str :: "js \<Rightarrow> js_error + string"
  and join :: "string \<Rightarrow> js list \<Rightarrow> js_error + string" where
  "to_str JUndefined = Inr ''undefined''"
| "to_str JNull = Inr ''null''"
| "to_str (JBool b) = Inr (if b then ''true'' else ''false'')"
| "to_str (JNum n) = (if \<bar>n\<bar> < 10 ^ 21 then Inr (show_int n) else Inl Unsupported)"
| "to_str (JStr s) = Inr s"
| "to_str (JArr xs) = join '','' xs"
| "to_str (JObj kvs) =
     (if map_of kvs ''toString'' = None then Inr ''[object Object]'' else Inl TypeError)"
| "join sep [] = Inr []"
| "join sep (x # xs) =
     bindE (if x = JUndefined \<or> x = JNull then Inr [] else to_str x)
       (\<lambda>s. if xs = [] then Inr s else bindE (join sep xs) (\<lambda>r. Inr (s @ sep @ r)))"

text \<open>
  \<^verbatim>\<open>v.join(sep)\<close>: only an array has the method. On a string, a number, a boolean or
  an object the member is missing or is data, and calling it throws.
\<close>

definition call_join :: "js \<Rightarrow> string \<Rightarrow> js_error + string" where
  "call_join v sep = (case v of JArr xs \<Rightarrow> join sep xs | _ \<Rightarrow> Inl TypeError)"

text \<open>
  Conversion to a number, for \<^verbatim>\<open>x > 0\<close> and \<^verbatim>\<open>indx < x\<close>; \<open>None\<close> is NaN. The
  conversion of a string, and of an array (through its string), is not modelled.
\<close>

fun to_number :: "js \<Rightarrow> js_error + int option" where
  "to_number JUndefined = Inr None"
| "to_number JNull = Inr (Some 0)"
| "to_number (JBool b) = Inr (Some (if b then 1 else 0))"
| "to_number (JNum n) = Inr (Some n)"
| "to_number (JStr s) = Inl Unsupported"
| "to_number (JArr xs) = Inl Unsupported"
| "to_number (JObj kvs) = (if map_of kvs ''toString'' = None then Inr None else Inl TypeError)"

definition gt_zero :: "js \<Rightarrow> js_error + bool" where
  "gt_zero v = bindE (to_number v) (\<lambda>n. Inr (case n of None \<Rightarrow> False | Some k \<Rightarrow> 0 < k))"

text \<open>
  The number of rounds of \<^verbatim>\<open>for (let indx = 0; indx < v; indx++)\<close>. Above \<open>2^53\<close>
  the counter of the source, a double, stops growing; such a bound is not modelled.
\<close>

definition loop_count :: "js \<Rightarrow> js_error + nat" where
  "loop_count v =
     bindE (to_number v) (\<lambda>n.
       case n of
         None \<Rightarrow> Inr 0
       | Some k \<Rightarrow> if k \<le> 9007199254740992 then Inr (nat k) else Inl Unsupported)"

section \<open>The lodash functions the validator imports\<close>

text \<open>
  \<^verbatim>\<open>at\<close>, \<^verbatim>\<open>each\<close>, \<^verbatim>\<open>includes\<close>, \<^verbatim>\<open>map\<close> and \<^verbatim>\<open>pick\<close> come from lodash 4, a
  dependency of the repository. They are modelled here as lodash 4 implements them, on
  the values of type \<^typ>\<open>js\<close>.
\<close>

subsection \<open>Property paths: \<^verbatim>\<open>stringToPath\<close>\<close>

text \<open>
  \<^verbatim>\<open>at(object, path)\<close> reads a string path through \<^verbatim>\<open>castPath\<close>: the string is one
  key when \<^verbatim>\<open>isKey\<close> says so, and is cut into keys by \<^verbatim>\<open>stringToPath\<close> otherwise.
  \<^verbatim>\<open>stringToPath\<close> collects the matches of the regular expression \<^verbatim>\<open>rePropName\<close>,

  \<^verbatim>\<open>/[^.[\]]+|\[(?:(-?\d+(?:\.\d+)?)|(["'])((?:(?!\2)[^\\]|\\.)*?)\2)\]|(?=(?:\.|\[\])(?:\.|\[\]|$))/g\<close>

  which has three alternatives:
  \<^item> a run of characters other than \<^verbatim>\<open>.\<close>, \<^verbatim>\<open>[\<close> and \<^verbatim>\<open>]\<close>;
  \<^item> a bracket holding a number, or holding a quoted string in which a backslash
    escapes the next character;
  \<^item> the empty string, where two separators follow each other.
\<close>

definition is_plain :: "char \<Rightarrow> bool" where
  "is_plain c = (c \<noteq> CHR ''.'' \<and> c \<noteq> CHR ''['' \<and> c \<noteq> CHR '']'')"

text \<open>
  The quoted part of the second alternative, after the opening quote \<open>q\<close>: as few
  characters as possible (a character other than the quote and the backslash, or a
  backslash and a character that is not a line terminator), then the quote and
  \<^verbatim>\<open>]\<close>. The result is the text between the quotes and the rest of the input.
\<close>

fun match_quoted :: "char \<Rightarrow> string \<Rightarrow> (string \<times> string) option" where
  "match_quoted q [] = None"
| "match_quoted q [c] = None"
| "match_quoted q (c # d # ds) =
     (if c = q then (if d = CHR '']'' then Some ([], ds) else None)
      else if c = CHR 0x5C then
        (if d = CHR 0x0A \<or> d = CHR 0x0D then None
         else map_option (\<lambda>(s, r). (c # d # s, r)) (match_quoted q ds))
      else map_option (\<lambda>(s, r). (c # s, r)) (match_quoted q (d # ds)))"

text \<open>
  \<^verbatim>\<open>subString.replace(reEscapeChar, '$1')\<close> with \<^verbatim>\<open>reEscapeChar = /\\(\\)?/g\<close>: a
  backslash goes, and of two backslashes one stays.
\<close>

fun unescape :: "string \<Rightarrow> string" where
  "unescape [] = []"
| "unescape [c] = (if c = CHR 0x5C then [] else [c])"
| "unescape (c # d # ds) =
     (if c = CHR 0x5C then (if d = CHR 0x5C then d # unescape ds else unescape (d # ds))
      else c # unescape (d # ds))"

text \<open>The number of the second alternative, after \<^verbatim>\<open>[\<close>: digits, with an optional sign
  and an optional fraction, then \<^verbatim>\<open>]\<close>.\<close>

definition match_number :: "string \<Rightarrow> (string \<times> string) option" where
  "match_number s =
     (let sign = takeWhile (\<lambda>c. c = CHR ''-'') (take 1 s);
          s1 = drop (length sign) s;
          ds = takeWhile is_digit s1;
          s2 = dropWhile is_digit s1
      in if ds = [] then None
         else case s2 of
             [] \<Rightarrow> None
           | c # s3 \<Rightarrow>
               if c = CHR '']'' then Some (sign @ ds, s3)
               else if c = CHR ''.'' then
                 (let fs = takeWhile is_digit s3; s4 = dropWhile is_digit s3
                  in if fs \<noteq> [] \<and> take 1 s4 = '']''
                     then Some (sign @ ds @ ''.'' @ fs, drop 1 s4) else None)
               else None)"

definition match_bracket :: "string \<Rightarrow> (string \<times> string) option" where
  "match_bracket s =
     (case match_number s of
        Some r \<Rightarrow> Some r
      | None \<Rightarrow>
          (case s of
             [] \<Rightarrow> None
           | q # rest \<Rightarrow>
               if q = CHR 0x22 \<or> q = CHR 0x27
               then map_option (\<lambda>(t, r). (unescape t, r)) (match_quoted q rest)
               else None))"

text \<open>The third alternative: \<^verbatim>\<open>.\<close> or \<^verbatim>\<open>[]\<close> follows, and then \<^verbatim>\<open>.\<close>, \<^verbatim>\<open>[]\<close> or
  the end of the input.\<close>

definition after_sep :: "string \<Rightarrow> string option" where
  "after_sep s =
     (if take 1 s = ''.'' then Some (drop 1 s)
      else if take 2 s = ''[]'' then Some (drop 2 s) else None)"

definition empty_key_here :: "string \<Rightarrow> bool" where
  "empty_key_here s = (case after_sep s of None \<Rightarrow> False | Some r \<Rightarrow> r = [] \<or> after_sep r \<noteq> None)"

function rePropName_matches :: "string \<Rightarrow> string list" where
  "rePropName_matches [] = []"
| "rePropName_matches (c # cs) =
     (if is_plain c then takeWhile is_plain (c # cs) # rePropName_matches (dropWhile is_plain cs)
      else case (if c = CHR ''['' then match_bracket cs else None) of
          Some (key, rest) \<Rightarrow> key # rePropName_matches rest
        | None \<Rightarrow>
            if empty_key_here (c # cs) then [] # rePropName_matches cs
            else rePropName_matches cs)"
  by pat_completeness auto
termination
proof (relation "measure length", goal_cases)
  have mq: "length r < length s" if "match_quoted q s = Some (t, r)" for q s t r
    using that
    by (induction q s arbitrary: t rule: match_quoted.induct) (fastforce split: if_splits)+
  have dw: "length (dropWhile P xs) \<le> length xs" for P and xs :: string
    by (simp add: length_dropWhile_le)
  have mn: "length r \<le> length s" if a: "match_number s = Some (t, r)" for s t r
  proof -
    define s1 where "s1 = drop (length (takeWhile (\<lambda>c. c = CHR ''-'') (take 1 s))) s"
    define s2 where "s2 = dropWhile is_digit s1"
    note b = a [unfolded match_number_def Let_def, folded s1_def, folded s2_def]
    have l2: "length s2 \<le> length s"
      using dw [of is_digit s1] by (simp add: s1_def s2_def)
    show ?thesis
    proof (cases s2)
      case Nil
      with b show ?thesis by (simp split: if_splits)
    next
      case (Cons c s3)
      have l4: "length (dropWhile is_digit s3) \<le> length s3" by (rule dw)
      from b Cons l2 l4 show ?thesis by (auto split: if_splits)
    qed
  qed
  have mb: "length r \<le> length s" if "match_bracket s = Some (t, r)" for s t r
    using that mn [of s t r] mq
    by (cases s) (auto simp: match_bracket_def less_Suc_eq_le split: option.splits if_splits dest!: mq)
  {
    case 1
    show ?case by simp
  next
    case (2 c cs)
    show ?case using dw [of is_plain cs] by simp
  next
    case 3
    then show ?case using mb by (auto split: if_splits simp: less_Suc_eq_le)
  next
    case 4
    then show ?case using mb by (auto split: if_splits simp: less_Suc_eq_le)
  next
    case 5
    then show ?case using mb by (auto split: if_splits simp: less_Suc_eq_le)
  }
qed

declare rePropName_matches.simps [simp del]

definition stringToPath :: "string \<Rightarrow> string list" where
  "stringToPath s = (if take 1 s = ''.'' then [[]] else []) @ rePropName_matches s"

subsection \<open>\<^verbatim>\<open>isKey\<close> and \<^verbatim>\<open>castPath\<close>\<close>

text \<open>
  \<^verbatim>\<open>isKey(value, object)\<close> for a string: the string is a plain name (\<^verbatim>\<open>reIsPlainProp\<close>,
  \<^verbatim>\<open>/^\w*$/\<close>: word characters only), or it has no \<^verbatim>\<open>.\<close> and no bracket pair
  (\<^verbatim>\<open>reIsDeepProp\<close>, \<^verbatim>\<open>/\.|\[(?:[^[\]]*|(["'])(?:(?!\1)[^\\]|\\.)*?\1)\]/\<close>, does not
  match), or \<^verbatim>\<open>value in Object(object)\<close>. That last test is reached only by a
  string with a \<^verbatim>\<open>.\<close> or a bracket in it; no built-in member has such a name, so the
  test looks at the object's own members.
\<close>

definition is_word_chr :: "char \<Rightarrow> bool" where
  "is_word_chr c =
     (let n = (of_char c :: nat) in
      (48 \<le> n \<and> n \<le> 57) \<or> (65 \<le> n \<and> n \<le> 90) \<or> n = 95 \<or> (97 \<le> n \<and> n \<le> 122))"

definition reIsPlainProp :: "string \<Rightarrow> bool" where
  "reIsPlainProp s = list_all is_word_chr s"

definition closes_plainly :: "string \<Rightarrow> bool" where
  "closes_plainly cs = (take 1 (dropWhile (\<lambda>c. c \<noteq> CHR ''['' \<and> c \<noteq> CHR '']'') cs) = '']'')"

definition closes_quoted :: "string \<Rightarrow> bool" where
  "closes_quoted cs =
     (case cs of
        [] \<Rightarrow> False
      | q # rest \<Rightarrow> (q = CHR 0x22 \<or> q = CHR 0x27) \<and> match_quoted q rest \<noteq> None)"

fun reIsDeepProp :: "string \<Rightarrow> bool" where
  "reIsDeepProp [] = False"
| "reIsDeepProp (c # cs) =
     (c = CHR ''.'' \<or> (c = CHR ''['' \<and> (closes_plainly cs \<or> closes_quoted cs)) \<or> reIsDeepProp cs)"

definition isKey :: "string \<Rightarrow> js \<Rightarrow> bool" where
  "isKey p object =
     (reIsPlainProp p \<or> \<not> reIsDeepProp p \<or>
      (case object of JObj kvs \<Rightarrow> map_of kvs p \<noteq> None | _ \<Rightarrow> False))"

definition castPath :: "string \<Rightarrow> js \<Rightarrow> string list" where
  "castPath p object = (if isKey p object then [p] else stringToPath p)"

subsection \<open>\<^verbatim>\<open>baseGet\<close>, \<^verbatim>\<open>get\<close> and \<^verbatim>\<open>at\<close>\<close>

text \<open>
  \<^verbatim>\<open>object[key]\<close> for a key that comes from the document (a segment of a reference).
  An object gives its own member; an array and a string give \<^verbatim>\<open>length\<close> and their
  elements. A key that is not an own member may name a member inherited from a built-in
  prototype: an object inherits the twelve members of \<^verbatim>\<open>Object.prototype\<close>, which are
  functions and not modelled; what arrays, strings, numbers and booleans inherit depends
  on the JavaScript engine, so every key of theirs that is not an own member is left
  unmodelled.
\<close>

definition object_prototype_names :: "string list" where
  "object_prototype_names =
     [''constructor'', ''__defineGetter__'', ''__defineSetter__'', ''hasOwnProperty'',
      ''__lookupGetter__'', ''__lookupSetter__'', ''isPrototypeOf'', ''propertyIsEnumerable'',
      ''toString'', ''valueOf'', ''__proto__'', ''toLocaleString'']"

fun member_at :: "js \<Rightarrow> string \<Rightarrow> js_error + js" where
  "member_at JUndefined k = Inl TypeError"
| "member_at JNull k = Inl TypeError"
| "member_at (JBool b) k = Inl Unsupported"
| "member_at (JNum n) k = Inl Unsupported"
| "member_at (JStr s) k =
     (if k = ''length'' then Inr (JNum (int (length s)))
      else case index_key k of
          Some i \<Rightarrow> Inr (if i < length s then JStr [s ! i] else JUndefined)
        | None \<Rightarrow> Inl Unsupported)"
| "member_at (JArr xs) k =
     (if k = ''length'' then Inr (JNum (int (length xs)))
      else case index_key k of
          Some i \<Rightarrow> Inr (if i < length xs then xs ! i else JUndefined)
        | None \<Rightarrow> Inl Unsupported)"
| "member_at (JObj kvs) k =
     (case map_of kvs k of
        Some v \<Rightarrow> Inr v
      | None \<Rightarrow> if k \<in> set object_prototype_names then Inl Unsupported else Inr JUndefined)"

text \<open>
  The loop of \<^verbatim>\<open>baseGet\<close>:
  \<^verbatim>\<open>while (object != null && index < length) object = object[toKey(path[index++])]\<close>,
  and its result \<^verbatim>\<open>(index && index == length) ? object : undefined\<close>.
\<close>

fun baseGet_loop :: "js \<Rightarrow> string list \<Rightarrow> js_error + js" where
  "baseGet_loop object [] = Inr object"
| "baseGet_loop object (k # ks) =
     (if object = JUndefined \<or> object = JNull then Inr JUndefined
      else bindE (member_at object k) (\<lambda>v. baseGet_loop v ks))"

definition baseGet :: "js \<Rightarrow> string \<Rightarrow> js_error + js" where
  "baseGet object p =
     (let ks = castPath p object in if ks = [] then Inr JUndefined else baseGet_loop object ks)"

text \<open>\<^verbatim>\<open>at(object, path)[0]\<close> for one string path: \<^verbatim>\<open>get(object, path)\<close>, and
  \<^verbatim>\<open>undefined\<close> when the object is \<^verbatim>\<open>null\<close> or \<^verbatim>\<open>undefined\<close>.\<close>

definition at0 :: "js \<Rightarrow> string \<Rightarrow> js_error + js" where
  "at0 object p = (if object = JUndefined \<or> object = JNull then Inr JUndefined else baseGet object p)"

subsection \<open>\<^verbatim>\<open>each\<close>, \<^verbatim>\<open>map\<close> and \<^verbatim>\<open>pick\<close>\<close>

text \<open>
  \<^verbatim>\<open>each\<close> and \<^verbatim>\<open>map\<close> call the function with \<open>(value, key)\<close>. An array, a string and
  an array-like object (an object whose \<^verbatim>\<open>length\<close> is an integer from 0 to
  \<open>2^53 - 1\<close>) are walked by index, the keys being numbers; any other object is walked
  by its own keys; \<^verbatim>\<open>null\<close>, \<^verbatim>\<open>undefined\<close>, numbers and booleans have nothing to walk.
  The functions the validator passes never return \<^verbatim>\<open>false\<close>, so no walk ends early.
\<close>

definition array_like_length :: "(string \<times> js) list \<Rightarrow> nat option" where
  "array_like_length kvs =
     (case map_of kvs ''length'' of
        Some (JNum n) \<Rightarrow> if 0 \<le> n \<and> n \<le> 9007199254740991 then Some (nat n) else None
      | _ \<Rightarrow> None)"

definition entries :: "js \<Rightarrow> (js \<times> js) list" where
  "entries v =
     (case v of
        JArr xs \<Rightarrow> map (\<lambda>i. (xs ! i, JNum (int i))) [0..<length xs]
      | JStr s \<Rightarrow> map (\<lambda>i. (JStr [s ! i], JNum (int i))) [0..<length s]
      | JObj kvs \<Rightarrow>
          (case array_like_length kvs of
             Some n \<Rightarrow>
               map (\<lambda>i. (case map_of kvs (show_nat i) of Some x \<Rightarrow> x | None \<Rightarrow> JUndefined,
                         JNum (int i))) [0..<n]
           | None \<Rightarrow> map (\<lambda>(k, x). (x, JStr k)) kvs)
      | _ \<Rightarrow> [])"

text \<open>
  \<^verbatim>\<open>map\<close> first allocates the result, \<^verbatim>\<open>Array(collection.length)\<close> for an array-like
  collection, which throws a RangeError for a length of \<open>2^32\<close> or more.
\<close>

definition map_result_array :: "js \<Rightarrow> js_error + unit" where
  "map_result_array v =
     (case v of
        JObj kvs \<Rightarrow>
          (case array_like_length kvs of
             Some n \<Rightarrow> if n < 4294967296 then Inr () else Inl RangeError
           | None \<Rightarrow> Inr ())
      | _ \<Rightarrow> Inr ())"

text \<open>
  \<^verbatim>\<open>pick(object, names)\<close>: the members of the new object, in the order of the names;
  a name is picked when \<^verbatim>\<open>name in Object(object)\<close>. The names picked here are the seven
  methods, none a built-in member, so only an object has any. The picked object is not
  array-like, and \<^verbatim>\<open>each\<close> walks these members in this order.
\<close>

definition pick :: "js \<Rightarrow> string list \<Rightarrow> (string \<times> js) list" where
  "pick object names =
     (case object of
        JObj kvs \<Rightarrow> List.map_filter (\<lambda>k. map_option (Pair k) (map_of kvs k)) names
      | _ \<Rightarrow> [])"

section \<open>The reference resolver\<close>

text \<open>\<^verbatim>\<open>String.prototype.split\<close> with a one-character separator.\<close>

fun split :: "char \<Rightarrow> string \<Rightarrow> string list" where
  "split d [] = [[]]"
| "split d (c # cs) =
     (if c = d then [] # split d cs
      else case split d cs of w # ws \<Rightarrow> (c # w) # ws | [] \<Rightarrow> [[c]])"

text \<open>\<^verbatim>\<open>Array.prototype.join\<close> on strings.\<close>

fun join_strings :: "string \<Rightarrow> string list \<Rightarrow> string" where
  "join_strings sep [] = []"
| "join_strings sep [x] = x"
| "join_strings sep (x # y # ys) = x @ sep @ join_strings sep (y # ys)"

text \<open>The path of a reference:
  \<^verbatim>\<open>obj.$ref.split("/").slice(1).map(e => `["${e}"]`).join(".")\<close>.\<close>

definition escape_segment :: "string \<Rightarrow> string" where
  "escape_segment e = [CHR ''['', CHR 0x22] @ e @ [CHR 0x22, CHR '']'']"

definition ref_path :: "string \<Rightarrow> string" where
  "ref_path ref = join_strings ''.'' (map escape_segment (drop 1 (split CHR ''/'' ref)))"

text \<open>
  \<^verbatim>\<open>resolveRef(obj, jsSpec)\<close>. \<^verbatim>\<open>obj.$ref.startsWith\<close> is a function only when the
  reference is a string: a truthy reference of another type throws.
\<close>

definition resolveRef :: "js \<Rightarrow> js \<Rightarrow> js_error + js" where
  "resolveRef obj jsSpec =
     bindE (getp obj ''$ref'') (\<lambda>ref.
       if \<not> truthy ref then Inr obj
       else case ref of
           JStr s \<Rightarrow> if take 2 s \<noteq> ''#/'' then Inr (JObj []) else at0 jsSpec (ref_path s)
         | _ \<Rightarrow> Inl TypeError)"

section \<open>The validator\<close>

record finding =
  path :: string
  message :: string

text \<open>\<open>result\<close> is the local object of \<^verbatim>\<open>validate\<close> with its two arrays, \<open>findings\<close> the
  object that \<^verbatim>\<open>validate\<close> returns.\<close>

record result =
  error :: "finding list"
  warning :: "finding list"

record findings =
  errors :: "finding list"
  warnings :: "finding list"

text \<open>
  \<^verbatim>\<open>result[checkStatus].push(f)\<close>. The key is the status as a string. \<open>result\<close> has the
  members \<^verbatim>\<open>error\<close> and \<^verbatim>\<open>warning\<close>; under any other key it has nothing, or a member
  inherited from \<^verbatim>\<open>Object.prototype\<close> that has no \<^verbatim>\<open>push\<close>, and the call throws.
\<close>

definition push :: "js \<Rightarrow> finding \<Rightarrow> result \<Rightarrow> js_error + result" where
  "push checkStatus f res =
     bindE (to_str checkStatus) (\<lambda>k.
       if k = ''error'' then Inr (res\<lparr>error := error res @ [f]\<rparr>)
       else if k = ''warning'' then Inr (res\<lparr>warning := warning res @ [f]\<rparr>)
       else Inl TypeError)"

text \<open>\<^verbatim>\<open>if (checkStatus !== "off") { result[checkStatus].push({ path, message }) }\<close>\<close>

definition report :: "js \<Rightarrow> string \<Rightarrow> string \<Rightarrow> result \<Rightarrow> js_error + result" where
  "report checkStatus p m res =
     (if checkStatus \<noteq> JStr ''off'' then push checkStatus \<lparr>path = p, message = m\<rparr> res
      else Inr res)"

text \<open>\<^verbatim>\<open>v && v.length > 0 && !!v.join("").trim()\<close>, as a boolean\<close>

definition has_entries :: "js \<Rightarrow> js_error + bool" where
  "has_entries v =
     (if \<not> truthy v then Inr False
      else bindE (getp v ''length'') (\<lambda>l.
           bindE (gt_zero l) (\<lambda>positive.
             if \<not> positive then Inr False
             else bindE (call_join v []) (\<lambda>s. Inr (trim s \<noteq> [])))))"

text \<open>\<^verbatim>\<open>v && v.length > 0 && !!v.toString().trim()\<close>, as a boolean\<close>

definition has_text :: "js \<Rightarrow> js_error + bool" where
  "has_text v =
     (if \<not> truthy v then Inr False
      else bindE (getp v ''length'') (\<lambda>l.
           bindE (gt_zero l) (\<lambda>positive.
             if \<not> positive then Inr False
             else bindE (to_str v) (\<lambda>s. Inr (trim s \<noteq> [])))))"

definition op_path :: "string \<Rightarrow> string \<Rightarrow> string \<Rightarrow> string" where
  "op_path pathKey opKey field = ''paths.'' @ pathKey @ ''.'' @ opKey @ ''.'' @ field"

definition msg_consumes :: string where
  "msg_consumes = ''PUT and POST operations must have a non-empty `consumes` field.''"

definition msg_produces :: string where
  "msg_produces = ''Operations must have a non-empty `produces` field.''"

definition msg_get_consumes :: string where
  "msg_get_consumes = ''GET operations should not specify a consumes field.''"

definition msg_array_response :: string where
  "msg_array_response =
     ''Arrays MUST NOT be returned as the top-level structure in a response body.''"

definition msg_operation_id :: string where
  "msg_operation_id = ''Operations must have a non-empty `operationId`.''"

definition msg_summary :: string where
  "msg_summary = ''Operations must have a non-empty `summary` field.''"

definition msg_parameter_order :: string where
  "msg_parameter_order = ''Required parameters should appear before optional parameters.''"

subsection \<open>The seven checks, in the order of the source\<close>

text \<open>Lines 69 to 84: PUT and POST operations must have a non-empty \<^verbatim>\<open>consumes\<close>.\<close>

definition check_consumes :: "js \<Rightarrow> js \<Rightarrow> string \<Rightarrow> string \<Rightarrow> js \<Rightarrow> result \<Rightarrow> js_error + result" where
  "check_consumes jsSpec config pathKey opKey op res =
     (if toLowerCase opKey \<in> set [''put'', ''post''] then
        bindE (getp op ''consumes'') (\<lambda>c.
        bindE (has_entries c) (\<lambda>hasLocalConsumes.
        bindE (getp jsSpec ''consumes'') (\<lambda>g.
          if \<not> hasLocalConsumes \<and> \<not> truthy g then
            bindE (getp config ''no_consumes_for_put_or_post'') (\<lambda>checkStatus.
              report checkStatus (op_path pathKey opKey ''consumes'') msg_consumes res)
          else Inr res)))
      else Inr res)"

text \<open>Lines 86 to 102: every operation but HEAD must have a non-empty \<^verbatim>\<open>produces\<close>.\<close>

definition check_produces :: "js \<Rightarrow> js \<Rightarrow> string \<Rightarrow> string \<Rightarrow> js \<Rightarrow> result \<Rightarrow> js_error + result" where
  "check_produces jsSpec config pathKey opKey op res =
     (if toLowerCase opKey \<noteq> ''head'' then
        bindE (getp op ''produces'') (\<lambda>p.
        bindE (has_entries p) (\<lambda>hasLocalProduces.
        bindE (getp jsSpec ''produces'') (\<lambda>g.
          if \<not> hasLocalProduces \<and> \<not> truthy g then
            bindE (getp config ''no_produces'') (\<lambda>checkStatus.
              report checkStatus (op_path pathKey opKey ''produces'') msg_produces res)
          else Inr res)))
      else Inr res)"

text \<open>Lines 104 to 117: a GET operation should not have \<^verbatim>\<open>consumes\<close>.\<close>

definition check_get_consumes :: "js \<Rightarrow> string \<Rightarrow> string \<Rightarrow> js \<Rightarrow> result \<Rightarrow> js_error + result" where
  "check_get_consumes config pathKey opKey op res =
     (if toLowerCase opKey = ''get'' then
        bindE (getp op ''consumes'') (\<lambda>c.
          if truthy c then
            bindE (getp config ''get_op_has_consumes'') (\<lambda>checkStatus.
              report checkStatus (op_path pathKey opKey ''consumes'') msg_get_consumes res)
          else Inr res)
      else Inr res)"

text \<open>Lines 119 to 133: no response of a GET operation has an array as its schema.\<close>

definition check_response :: "js \<Rightarrow> js \<Rightarrow> string \<Rightarrow> string \<Rightarrow> js \<times> js \<Rightarrow> result \<Rightarrow> js_error + result" where
  "check_response jsSpec checkStatus pathKey opKey entry res =
     (case entry of (response, name) \<Rightarrow>
        bindE (getp response ''schema'') (\<lambda>schema.
          if truthy schema then
            bindE (resolveRef schema jsSpec) (\<lambda>responseSchema.
              if truthy responseSchema then
                bindE (getp responseSchema ''type'') (\<lambda>t.
                  if t = JStr ''array'' then
                    bindE (to_str name) (\<lambda>n.
                      push checkStatus
                        \<lparr>path = op_path pathKey opKey (''responses.'' @ n @ ''.schema''),
                         message = msg_array_response\<rparr> res)
                  else Inr res)
              else Inr res)
          else Inr res))"

definition check_array_responses :: "js \<Rightarrow> js \<Rightarrow> string \<Rightarrow> string \<Rightarrow> js \<Rightarrow> result \<Rightarrow> js_error + result" where
  "check_array_responses jsSpec config pathKey opKey op res =
     (if toLowerCase opKey = ''get'' then
        bindE (getp config ''no_array_responses'') (\<lambda>checkStatus.
          if checkStatus \<noteq> JStr ''off'' then
            bindE (getp op ''responses'') (\<lambda>responses.
              foldE (check_response jsSpec checkStatus pathKey opKey) (entries responses) res)
          else Inr res)
      else Inr res)"

text \<open>Lines 137 to 147: an operation must have a non-empty \<^verbatim>\<open>operationId\<close>.\<close>

definition check_operation_id :: "js \<Rightarrow> string \<Rightarrow> string \<Rightarrow> js \<Rightarrow> result \<Rightarrow> js_error + result" where
  "check_operation_id config pathKey opKey op res =
     bindE (getp op ''operationId'') (\<lambda>v.
     bindE (has_text v) (\<lambda>hasOperationId.
       if \<not> hasOperationId then
         bindE (getp config ''no_operation_id'') (\<lambda>checkStatus.
           report checkStatus (op_path pathKey opKey ''operationId'') msg_operation_id res)
       else Inr res))"

text \<open>Lines 149 to 159: an operation must have a non-empty \<^verbatim>\<open>summary\<close>.\<close>

definition check_summary :: "js \<Rightarrow> string \<Rightarrow> string \<Rightarrow> js \<Rightarrow> result \<Rightarrow> js_error + result" where
  "check_summary config pathKey opKey op res =
     bindE (getp op ''summary'') (\<lambda>v.
     bindE (has_text v) (\<lambda>hasSummary.
       if \<not> hasSummary then
         bindE (getp config ''no_summary'') (\<lambda>checkStatus.
           report checkStatus (op_path pathKey opKey ''summary'') msg_summary res)
       else Inr res))"

text \<open>
  Lines 161 to 183: required parameters come before optional ones. \<open>elem_at\<close> is
  \<^verbatim>\<open>op.parameters[indx]\<close>; \<open>check_param\<close> is one round of the loop, on the state
  \<open>(firstOptional, result)\<close>.
\<close>

fun elem_at :: "js \<Rightarrow> nat \<Rightarrow> js_error + js" where
  "elem_at JUndefined i = Inl TypeError"
| "elem_at JNull i = Inl TypeError"
| "elem_at (JBool b) i = Inr JUndefined"
| "elem_at (JNum n) i = Inr JUndefined"
| "elem_at (JStr s) i = Inr (if i < length s then JStr [s ! i] else JUndefined)"
| "elem_at (JArr xs) i = Inr (if i < length xs then xs ! i else JUndefined)"
| "elem_at (JObj kvs) i = Inr (case map_of kvs (show_nat i) of Some v \<Rightarrow> v | None \<Rightarrow> JUndefined)"

definition check_param ::
  "js \<Rightarrow> js \<Rightarrow> string \<Rightarrow> string \<Rightarrow> js \<Rightarrow> nat \<Rightarrow> int \<times> result \<Rightarrow> js_error + int \<times> result" where
  "check_param jsSpec checkStatus pathKey opKey parameters indx st =
     (case st of (firstOptional, res) \<Rightarrow>
        bindE (elem_at parameters indx) (\<lambda>obj.
        bindE (resolveRef obj jsSpec) (\<lambda>param.
          if firstOptional < 0 then
            bindE (getp param ''required'') (\<lambda>required.
              if \<not> truthy required then Inr (int indx, res) else Inr (firstOptional, res))
          else
            bindE (getp param ''required'') (\<lambda>required.
              if truthy required then
                bindE (push checkStatus
                         \<lparr>path = ''paths.'' @ pathKey @ ''.'' @ opKey @ ''.parameters['' @ show_nat indx @ '']'',
                          message = msg_parameter_order\<rparr> res)
                  (\<lambda>res'. Inr (firstOptional, res'))
              else Inr (firstOptional, res)))))"

definition check_parameter_order :: "js \<Rightarrow> js \<Rightarrow> string \<Rightarrow> string \<Rightarrow> js \<Rightarrow> result \<Rightarrow> js_error + result" where
  "check_parameter_order jsSpec config pathKey opKey op res =
     bindE (getp config ''parameter_order'') (\<lambda>checkStatus.
       if checkStatus \<noteq> JStr ''off'' then
         bindE (getp op ''parameters'') (\<lambda>parameters.
           if truthy parameters then
             bindE (getp parameters ''length'') (\<lambda>l.
             bindE (gt_zero l) (\<lambda>positive.
               if positive then
                 bindE (loop_count l) (\<lambda>n.
                 bindE (foldE (check_param jsSpec checkStatus pathKey opKey parameters) [0..<n] (- 1, res))
                   (\<lambda>st. Inr (snd st)))
               else Inr res))
           else Inr res)
       else Inr res)"

subsection \<open>The traversal\<close>

text \<open>The function passed to \<^verbatim>\<open>each(pathOps, ...)\<close>, lines 61 to 184.\<close>

definition visit_op :: "js \<Rightarrow> js \<Rightarrow> string \<Rightarrow> string \<times> js \<Rightarrow> result \<Rightarrow> js_error + result" where
  "visit_op jsSpec config pathKey entry res =
     (case entry of (opKey, op) \<Rightarrow>
        bindE (getp op ''x-sdk-exclude'') (\<lambda>excluded.
          if excluded = JBool True then Inr res
          else
            bindE (check_consumes jsSpec config pathKey opKey op res) (\<lambda>r1.
            bindE (check_produces jsSpec config pathKey opKey op r1) (\<lambda>r2.
            bindE (check_get_consumes config pathKey opKey op r2) (\<lambda>r3.
            bindE (check_array_responses jsSpec config pathKey opKey op r3) (\<lambda>r4.
            bindE (check_operation_id config pathKey opKey op r4) (\<lambda>r5.
            bindE (check_summary config pathKey opKey op r5) (\<lambda>r6.
              check_parameter_order jsSpec config pathKey opKey op r6))))))))"

definition methods :: "string list" where
  "methods = [''get'', ''head'', ''post'', ''put'', ''patch'', ''delete'', ''options'']"

text \<open>
  The function passed to \<^verbatim>\<open>map(jsSpec.paths, ...)\<close>, lines 56 to 185. The key of an
  array, a string or an array-like object is a number, and \<^verbatim>\<open>pathKey.slice\<close> is then
  not a function.
\<close>

definition visit_path :: "js \<Rightarrow> js \<Rightarrow> js \<times> js \<Rightarrow> result \<Rightarrow> js_error + result" where
  "visit_path jsSpec config entry res =
     (case entry of (pathItem, pathKey) \<Rightarrow>
        (case pathKey of
           JStr k \<Rightarrow>
             if take 2 k = ''x-'' then Inr res
             else foldE (visit_op jsSpec config k) (pick pathItem methods) res
         | _ \<Rightarrow> Inl TypeError))"

text \<open>\<^verbatim>\<open>validate({ jsSpec }, config)\<close>: the first argument is the object that holds the
  document under \<^verbatim>\<open>jsSpec\<close>.\<close>

definition validate :: "js \<Rightarrow> js \<Rightarrow> js_error + findings" where
  "validate arg config =
     bindE (getp arg ''jsSpec'') (\<lambda>jsSpec.
     bindE (getp config ''operations'') (\<lambda>config'.
     bindE (getp jsSpec ''paths'') (\<lambda>paths.
     bindE (map_result_array paths) (\<lambda>_.
     bindE (foldE (visit_path jsSpec config') (entries paths) \<lparr>error = [], warning = []\<rparr>)
       (\<lambda>res. Inr \<lparr>errors = error res, warnings = warning res\<rparr>)))))"

section \<open>Notions for stating the properties\<close>

text \<open>
  The definitions of this section are not part of the program: they name what the
  theorems speak about.
\<close>

subsection \<open>Findings added to a result\<close>

text \<open>\<open>extend res es ws\<close> is \<open>res\<close> after the errors \<open>es\<close> and the warnings \<open>ws\<close> were pushed.\<close>

definition extend :: "result \<Rightarrow> finding list \<Rightarrow> finding list \<Rightarrow> result" where
  "extend res es ws = res\<lparr>error := error res @ es, warning := warning res @ ws\<rparr>"

definition empty_result :: result where
  "empty_result = \<lparr>error = [], warning = []\<rparr>"

text \<open>
  A status routes a finding to a bucket when it is not \<^verbatim>\<open>"off"\<close> and its string is the
  name of the bucket: \<open>routes (JStr ''error'') ''error''\<close>, and no status routes to two
  buckets. A status is unroutable when it is not \<^verbatim>\<open>"off"\<close> and names no bucket:
  \<^verbatim>\<open>"info"\<close>, \<^verbatim>\<open>undefined\<close> (the rule is missing from the configuration), \<^verbatim>\<open>true\<close>.
\<close>

definition routes :: "js \<Rightarrow> string \<Rightarrow> bool" where
  "routes checkStatus bucket = (checkStatus \<noteq> JStr ''off'' \<and> to_str checkStatus = Inr bucket)"

definition unroutable :: "js \<Rightarrow> bool" where
  "unroutable v = (v \<noteq> JStr ''off'' \<and> to_str v \<noteq> Inr ''error'' \<and> to_str v \<noteq> Inr ''warning'')"

text \<open>
  Each rule has a message of its own, so the findings of a rule in a bucket are the
  findings with its message. \<open>only m fs\<close>: every finding of \<open>fs\<close> has the message \<open>m\<close>.
\<close>

definition rule_findings :: "string \<Rightarrow> finding list \<Rightarrow> finding list" where
  "rule_findings m fs = filter (\<lambda>f. message f = m) fs"

definition only :: "string \<Rightarrow> finding list \<Rightarrow> bool" where
  "only m fs = list_all (\<lambda>f. message f = m) fs"

subsection \<open>The order of the rules\<close>

text \<open>
  \<open>rule_number\<close> is the number of the rule in the comments at the head of the source
  (Assertation 1 to 7), by its message; \<open>source_position\<close> is the position of its check in
  the body of \<^verbatim>\<open>validate\<close>.
\<close>

definition rule_number :: "string \<Rightarrow> nat" where
  "rule_number m =
     (if m = msg_consumes then 1 else if m = msg_get_consumes then 2
      else if m = msg_produces then 3 else if m = msg_operation_id then 4
      else if m = msg_summary then 5 else if m = msg_array_response then 6
      else if m = msg_parameter_order then 7 else 0)"

definition source_position :: "string \<Rightarrow> nat" where
  "source_position m =
     (if m = msg_consumes then 1 else if m = msg_produces then 2
      else if m = msg_get_consumes then 3 else if m = msg_array_response then 4
      else if m = msg_operation_id then 5 else if m = msg_summary then 6
      else if m = msg_parameter_order then 7 else 0)"

definition in_order_upto :: "nat \<Rightarrow> finding list \<Rightarrow> bool" where
  "in_order_upto k fs =
     (sorted (map (\<lambda>f. source_position (message f)) fs) \<and>
      list_all (\<lambda>f. source_position (message f) \<le> k) fs)"

subsection \<open>Required parameters\<close>

text \<open>
  \<open>is_required jsSpec p\<close>: the parameter \<open>p\<close>, resolved, has a truthy \<^verbatim>\<open>required\<close>. For
  the list of these flags, \<open>first_optional\<close> is the index of the first parameter that is
  not required (the length of the list when all are), and \<open>violations\<close> are the indices
  of the required parameters after it.
\<close>

definition is_required :: "js \<Rightarrow> js \<Rightarrow> bool" where
  "is_required jsSpec p =
     (case resolveRef p jsSpec of
        Inl e \<Rightarrow> False
      | Inr param \<Rightarrow> (case getp param ''required'' of Inl e \<Rightarrow> False | Inr r \<Rightarrow> truthy r))"

definition first_optional :: "bool list \<Rightarrow> nat" where
  "first_optional req = length (takeWhile (\<lambda>b. b) req)"

definition violations :: "bool list \<Rightarrow> nat list" where
  "violations req = filter (\<lambda>i. req ! i) [Suc (first_optional req)..<length req]"

definition parameter_finding :: "string \<Rightarrow> string \<Rightarrow> nat \<Rightarrow> finding" where
  "parameter_finding pathKey opKey i =
     \<lparr>path = ''paths.'' @ pathKey @ ''.'' @ opKey @ ''.parameters['' @ show_nat i @ '']'',
      message = msg_parameter_order\<rparr>"

subsection \<open>Configurations and documents\<close>

text \<open>
  The seven rules of the configuration. \<open>set_member k v\<close> sets the member \<open>k\<close> of an
  object; \<open>rules_at v\<close> has every rule at \<open>v\<close>, \<open>only_rule k v\<close> has the rule \<open>k\<close> at \<open>v\<close>
  and the others off; \<open>config_of\<close> is the configuration with these \<^verbatim>\<open>operations\<close>;
  \<open>one_operation\<close> is a document with one path and one operation.
\<close>

definition rule_names :: "string list" where
  "rule_names =
     [''no_consumes_for_put_or_post'', ''get_op_has_consumes'', ''no_produces'',
      ''no_operation_id'', ''no_summary'', ''no_array_responses'', ''parameter_order'']"

fun set_member :: "string \<Rightarrow> js \<Rightarrow> (string \<times> js) list \<Rightarrow> (string \<times> js) list" where
  "set_member k v [] = [(k, v)]"
| "set_member k v ((k', v') # kvs) =
     (if k' = k then (k, v) # kvs else (k', v') # set_member k v kvs)"

definition rules_at :: "js \<Rightarrow> js" where
  "rules_at v = JObj (map (\<lambda>k. (k, v)) rule_names)"

definition only_rule :: "string \<Rightarrow> js \<Rightarrow> js" where
  "only_rule k v = JObj (map (\<lambda>r. (r, if r = k then v else JStr ''off'')) rule_names)"

definition config_of :: "js \<Rightarrow> js" where
  "config_of operations = JObj [(''operations'', operations)]"

definition one_operation :: "string \<Rightarrow> string \<Rightarrow> js \<Rightarrow> js" where
  "one_operation pathKey opKey op = JObj [(''paths'', JObj [(pathKey, JObj [(opKey, op)])])]"

text \<open>
  \<open>off_instead k c1 c2\<close>: the configurations \<open>c1\<close> and \<open>c2\<close> (the \<^verbatim>\<open>operations\<close> objects)
  agree on every rule but \<open>k\<close>, which is unroutable in \<open>c1\<close> and off in \<open>c2\<close>.
\<close>

definition off_instead :: "string \<Rightarrow> js \<Rightarrow> js \<Rightarrow> bool" where
  "off_instead k c1 c2 =
     ((\<exists>v. getp c1 k = Inr v \<and> unroutable v) \<and> getp c2 k = Inr (JStr ''off'') \<and>
      (\<forall>k'. k' \<noteq> k \<longrightarrow> getp c2 k' = getp c1 k'))"

text \<open>
  \<open>has_operation jsSpec\<close>: the traversal of the document reaches an operation that is
  not excluded: a path whose key does not start with \<^verbatim>\<open>x-\<close> has one of the seven methods,
  and its \<^verbatim>\<open>x-sdk-exclude\<close> is not \<^verbatim>\<open>true\<close>.
\<close>

definition has_operation :: "js \<Rightarrow> bool" where
  "has_operation jsSpec =
     (case getp jsSpec ''paths'' of
        Inl e \<Rightarrow> False
      | Inr paths \<Rightarrow>
          list_ex (\<lambda>(pathItem, pathKey).
              case pathKey of
                JStr k \<Rightarrow>
                  take 2 k \<noteq> ''x-'' \<and>
                  list_ex (\<lambda>(opKey, op). getp op ''x-sdk-exclude'' \<noteq> Inr (JBool True))
                    (pick pathItem methods)
              | _ \<Rightarrow> False)
            (entries paths))"

subsection \<open>The value stored under a sequence of keys\<close>

text \<open>
  \<open>lookup_keys v ks\<close> walks down the objects of a document by keys that are present.
  A segment of a reference is literal when it has no \<^verbatim>\<open>/\<close>, no double quote and no
  backslash.
\<close>

fun lookup_keys :: "js \<Rightarrow> string list \<Rightarrow> js option" where
  "lookup_keys v [] = Some v"
| "lookup_keys (JObj kvs) (k # ks) =
     (case map_of kvs k of Some x \<Rightarrow> lookup_keys x ks | None \<Rightarrow> None)"
| "lookup_keys v (k # ks) = None"

definition literal_segment :: "string \<Rightarrow> bool" where
  "literal_segment e = (CHR ''/'' \<notin> set e \<and> CHR 0x22 \<notin> set e \<and> CHR 0x5C \<notin> set e)"

subsection \<open>A rule set to an unroutable severity, against the same rule set to error\<close>

text \<open>
  \<open>message_of k\<close> is the message of the rule with the configuration key \<open>k\<close>.
  \<open>error_instead k c1 c2\<close>: the configurations \<open>c1\<close> and \<open>c2\<close> agree on every rule but
  \<open>k\<close>, which is unroutable in \<open>c1\<close> and \<^verbatim>\<open>"error"\<close> in \<open>c2\<close>.
  \<open>throws_where_adds m proj f1 f2\<close> relates two steps on a state whose result is \<open>proj\<close>
  of it: where \<open>f2\<close> returns without a new finding of message \<open>m\<close>, \<open>f1\<close> returns the
  same state; where \<open>f2\<close> returns with new findings of message \<open>m\<close>, \<open>f1\<close> throws.
\<close>

definition message_of :: "string \<Rightarrow> string" where
  "message_of k =
     (if k = ''no_consumes_for_put_or_post'' then msg_consumes
      else if k = ''no_produces'' then msg_produces
      else if k = ''get_op_has_consumes'' then msg_get_consumes
      else if k = ''no_array_responses'' then msg_array_response
      else if k = ''no_operation_id'' then msg_operation_id
      else if k = ''no_summary'' then msg_summary
      else if k = ''parameter_order'' then msg_parameter_order
      else [])"

definition error_instead :: "string \<Rightarrow> js \<Rightarrow> js \<Rightarrow> bool" where
  "error_instead k c1 c2 =
     ((\<exists>v. getp c1 k = Inr v \<and> unroutable v) \<and> getp c2 k = Inr (JStr ''error'') \<and>
      (\<forall>k'. k' \<noteq> k \<longrightarrow> getp c2 k' = getp c1 k'))"

definition throws_where_adds ::
  "string \<Rightarrow> ('s \<Rightarrow> result) \<Rightarrow> ('s \<Rightarrow> js_error + 's) \<Rightarrow> ('s \<Rightarrow> js_error + 's) \<Rightarrow> bool" where
  "throws_where_adds m proj f1 f2 =
     (\<forall>s s'. f2 s = Inr s' \<longrightarrow>
        (\<exists>x. rule_findings m (error (proj s')) = rule_findings m (error (proj s)) @ x \<and>
             (if x = [] then f1 s = Inr s' else (\<exists>e. f1 s = Inl e))))"

subsection \<open>A list with entries\<close>

text \<open>
  The local \<^verbatim>\<open>consumes\<close> (or \<^verbatim>\<open>produces\<close>) of an operation is non-empty when it is a
  list with an entry whose text has a character other than white space; entries without
  one join and trim to the empty string. The white space of JavaScript among the code
  units below 256 is TAB, LF, VT, FF, CR, SP and NBSP. \<open>visible x\<close>: the text that the
  entry \<open>x\<close> gives to the joined string has a character other than white space.
  \<^verbatim>\<open>undefined\<close> and \<^verbatim>\<open>null\<close> give no text, a string gives itself, a number its digits,
  a boolean its name, an object \<^verbatim>\<open>[object Object]\<close>, and an array inside the list gives
  its own entries with a comma between them.
\<close>

definition white_space :: "char list" where
  "white_space = [CHR 0x09, CHR 0x0A, CHR 0x0B, CHR 0x0C, CHR 0x0D, CHR 0x20, CHR 0xA0]"

definition blank :: "string \<Rightarrow> bool" where
  "blank s = list_all (\<lambda>c. c \<in> set white_space) s"



subsection \<open>The severity of a rule\<close>

text \<open>
  \<open>visited_operations jsSpec\<close> lists the operations that the traversal visits and does
  not exclude, each with the key of its path and its method.
\<close>

definition visited_operations :: "js \<Rightarrow> (string \<times> string \<times> js) list" where
  "visited_operations jsSpec =
     (case getp jsSpec ''paths'' of
        Inl e \<Rightarrow> []
      | Inr paths \<Rightarrow>
          concat (map (\<lambda>(pathItem, pathKey).
              case pathKey of
                JStr k \<Rightarrow>
                  if take 2 k = ''x-'' then []
                  else map (\<lambda>(opKey, op). (k, opKey, op))
                         (filter (\<lambda>(opKey, op). getp op ''x-sdk-exclude'' \<noteq> Inr (JBool True))
                            (pick pathItem methods))
              | _ \<Rightarrow> [])
            (entries paths)))"

text \<open>
  \<open>severity_routed operations bucket fs\<close>: every finding of \<open>fs\<close> carries the message of a
  rule whose member of \<open>operations\<close> routes to \<open>bucket\<close>.
\<close>

definition severity_routed :: "js \<Rightarrow> string \<Rightarrow> finding list \<Rightarrow> bool" where
  "severity_routed operations bucket fs =
     list_all (\<lambda>f. list_ex (\<lambda>k. message f = message_of k \<and>
                           (case getp operations k of Inl e \<Rightarrow> False | Inr s \<Rightarrow> routes s bucket))
                    rule_names) fs"

text \<open>
  For each rule one plain way to break it, as the member of the operation that the
  finding names: a PUT or POST operation without \<^verbatim>\<open>consumes\<close> in a document without
  \<^verbatim>\<open>consumes\<close>; an operation other than HEAD without \<^verbatim>\<open>produces\<close> in a document without
  \<^verbatim>\<open>produces\<close>; a GET operation with a list as \<^verbatim>\<open>consumes\<close>; a GET operation whose response
  \<^verbatim>\<open>200\<close> has a schema of type \<^verbatim>\<open>array\<close>; an operation without \<^verbatim>\<open>operationId\<close>; an
  operation without \<^verbatim>\<open>summary\<close>; an operation with an optional parameter before a
  required one.
\<close>

definition plain_violation :: "string \<Rightarrow> js \<Rightarrow> string \<Rightarrow> js \<Rightarrow> string option" where
  "plain_violation k jsSpec opKey op =
     (if k = ''no_consumes_for_put_or_post'' then
        (if opKey \<in> set [''put'', ''post''] \<and> getp op ''consumes'' = Inr JUndefined \<and>
            getp jsSpec ''consumes'' = Inr JUndefined
         then Some ''consumes'' else None)
      else if k = ''no_produces'' then
        (if opKey \<noteq> ''head'' \<and> getp op ''produces'' = Inr JUndefined \<and>
            getp jsSpec ''produces'' = Inr JUndefined
         then Some ''produces'' else None)
      else if k = ''get_op_has_consumes'' then
        (if opKey = ''get'' \<and> getp op ''consumes'' = Inr (JArr []) then Some ''consumes'' else None)
      else if k = ''no_array_responses'' then
        (if opKey = ''get'' \<and>
            getp op ''responses'' =
              Inr (JObj [(''200'', JObj [(''schema'', JObj [(''type'', JStr ''array'')])])])
         then Some ''responses.200.schema'' else None)
      else if k = ''no_operation_id'' then
        (if getp op ''operationId'' = Inr JUndefined then Some ''operationId'' else None)
      else if k = ''no_summary'' then
        (if getp op ''summary'' = Inr JUndefined then Some ''summary'' else None)
      else if k = ''parameter_order'' then
        (if getp op ''parameters'' = Inr (JArr [JObj [], JObj [(''required'', JBool True)]])
         then Some ''parameters[1]'' else None)
      else None)"

section \<open>Lemmas\<close>

subsection \<open>Exceptions and results\<close>

lemma bindE_Inl [simp]: "bindE (Inl e) f = Inl e"
  by (simp add: bindE_def)

lemma bindE_Inr [simp]: "bindE (Inr x) f = f x"
  by (simp add: bindE_def)

lemma bindE_eq_Inr: "bindE m f = Inr y \<longleftrightarrow> (\<exists>x. m = Inr x \<and> f x = Inr y)"
  by (cases m) simp_all

lemma bindE_InrE:
  assumes "bindE m f = Inr y"
  obtains x where "m = Inr x" and "f x = Inr y"
  using assms by (auto simp: bindE_eq_Inr)

lemma foldE_append: "foldE f (xs @ ys) s = bindE (foldE f xs s) (foldE f ys)"
  by (induction xs arbitrary: s) (auto simp: bindE_def split: sum.splits)

lemma foldE_sim:
  assumes "\<And>x s s'. f x s = Inr s' \<Longrightarrow> g x s = Inr s'"
  shows "foldE f xs s = Inr s' \<Longrightarrow> foldE g xs s = Inr s'"
  by (induction xs arbitrary: s) (auto simp: bindE_eq_Inr assms)

lemma foldE_unchanged:
  assumes "\<And>x s s'. f x s = Inr s' \<Longrightarrow> s' = s"
  shows "foldE f xs s = Inr s' \<Longrightarrow> s' = s"
  by (induction xs arbitrary: s) (auto simp: bindE_eq_Inr dest: assms)

lemma foldE_fails:
  assumes "x \<in> set xs" and "\<And>s s'. f x s \<noteq> Inr s'"
  shows "foldE f xs s \<noteq> Inr s'"
  using assms(1)
proof (induction xs arbitrary: s)
  case Nil
  then show ?case by simp
next
  case (Cons y ys)
  show ?case
  proof (cases "y = x")
    case True
    then show ?thesis using assms(2) by (auto simp: bindE_eq_Inr)
  next
    case False
    with Cons.prems have "x \<in> set ys" by simp
    from Cons.IH [OF this] show ?thesis by (auto simp: bindE_eq_Inr)
  qed
qed

lemma extend_nil [simp]: "extend res [] [] = res"
  by (simp add: extend_def)

lemma extend_extend [simp]: "extend (extend res a b) c d = extend res (a @ c) (b @ d)"
  by (simp add: extend_def)

lemma error_extend [simp]: "error (extend res es ws) = error res @ es"
  by (simp add: extend_def)

lemma warning_extend [simp]: "warning (extend res es ws) = warning res @ ws"
  by (simp add: extend_def)

lemma push_Inr:
  "push s f res = Inr res' \<Longrightarrow>
     res' = extend res (if to_str s = Inr ''error'' then [f] else [])
                       (if to_str s = Inr ''warning'' then [f] else [])"
  by (auto simp: push_def extend_def bindE_eq_Inr split: if_splits)

lemma report_Inr:
  "report s p m res = Inr res' \<Longrightarrow>
     res' = extend res (if routes s ''error'' then [\<lparr>path = p, message = m\<rparr>] else [])
                       (if routes s ''warning'' then [\<lparr>path = p, message = m\<rparr>] else [])"
  by (auto simp: report_def routes_def dest!: push_Inr split: if_splits)

lemma report_off [simp]: "report (JStr ''off'') p m res = Inr res"
  by (simp add: report_def)

lemma push_error: "push (JStr ''error'') f res = Inr (extend res [f] [])"
  by (simp add: push_def extend_def)

lemma report_error:
  "report (JStr ''error'') p m res = Inr (extend res [\<lparr>path = p, message = m\<rparr>] [])"
  by (simp add: report_def push_error)

subsection \<open>Every check adds findings with its own message only\<close>

lemma only_simps [simp]:
  "only m []" "only m (f # fs) = (message f = m \<and> only m fs)"
  "only m (fs @ gs) = (only m fs \<and> only m gs)"
  by (simp_all add: only_def)

lemma push_emits:
  "push s \<lparr>path = p, message = m\<rparr> res = Inr res' \<Longrightarrow>
     \<exists>es ws. res' = extend res es ws \<and> only m es \<and> only m ws"
  by (drule push_Inr,
      rule exI [of _ "if to_str s = Inr ''error'' then [\<lparr>path = p, message = m\<rparr>] else []"],
      rule exI [of _ "if to_str s = Inr ''warning'' then [\<lparr>path = p, message = m\<rparr>] else []"])
     simp

lemma report_emits:
  "report s p m res = Inr res' \<Longrightarrow> \<exists>es ws. res' = extend res es ws \<and> only m es \<and> only m ws"
  by (drule report_Inr,
      rule exI [of _ "if routes s ''error'' then [\<lparr>path = p, message = m\<rparr>] else []"],
      rule exI [of _ "if routes s ''warning'' then [\<lparr>path = p, message = m\<rparr>] else []"])
     simp

lemma no_emission: "\<exists>es ws. res = extend res es ws \<and> only m es \<and> only m ws"
  by (rule exI [of _ "[]"], rule exI [of _ "[]"]) simp

lemma check_consumes_emits:
  "check_consumes jsSpec config pathKey opKey op res = Inr res' \<Longrightarrow>
     \<exists>es ws. res' = extend res es ws \<and> only msg_consumes es \<and> only msg_consumes ws"
  unfolding check_consumes_def
  by (auto simp: bindE_eq_Inr no_emission split: if_splits dest: report_emits)

lemma check_produces_emits:
  "check_produces jsSpec config pathKey opKey op res = Inr res' \<Longrightarrow>
     \<exists>es ws. res' = extend res es ws \<and> only msg_produces es \<and> only msg_produces ws"
  unfolding check_produces_def
  by (auto simp: bindE_eq_Inr no_emission split: if_splits dest: report_emits)

lemma check_get_consumes_emits:
  "check_get_consumes config pathKey opKey op res = Inr res' \<Longrightarrow>
     \<exists>es ws. res' = extend res es ws \<and> only msg_get_consumes es \<and> only msg_get_consumes ws"
  unfolding check_get_consumes_def
  by (auto simp: bindE_eq_Inr no_emission split: if_splits dest: report_emits)

lemma check_operation_id_emits:
  "check_operation_id config pathKey opKey op res = Inr res' \<Longrightarrow>
     \<exists>es ws. res' = extend res es ws \<and> only msg_operation_id es \<and> only msg_operation_id ws"
  unfolding check_operation_id_def
  by (auto simp: bindE_eq_Inr no_emission split: if_splits dest: report_emits)

lemma check_summary_emits:
  "check_summary config pathKey opKey op res = Inr res' \<Longrightarrow>
     \<exists>es ws. res' = extend res es ws \<and> only msg_summary es \<and> only msg_summary ws"
  unfolding check_summary_def
  by (auto simp: bindE_eq_Inr no_emission split: if_splits dest: report_emits)

lemma check_response_emits:
  "check_response jsSpec s pathKey opKey entry res = Inr res' \<Longrightarrow>
     \<exists>es ws. res' = extend res es ws \<and> only msg_array_response es \<and> only msg_array_response ws"
  unfolding check_response_def
  by (cases entry) (auto simp: bindE_eq_Inr no_emission split: if_splits dest: push_emits)

lemma foldE_emits:
  assumes step: "\<And>x s s'. f x s = Inr s' \<Longrightarrow> \<exists>es ws. s' = extend s es ws \<and> only m es \<and> only m ws"
  shows "foldE f xs s = Inr s' \<Longrightarrow> \<exists>es ws. s' = extend s es ws \<and> only m es \<and> only m ws"
proof (induction xs arbitrary: s)
  case Nil
  then show ?case by (simp add: no_emission)
next
  case (Cons x xs)
  from Cons.prems obtain t where t: "f x s = Inr t" and rest: "foldE f xs t = Inr s'"
    by (auto simp: bindE_eq_Inr)
  from step [OF t] obtain e1 w1 where 1: "t = extend s e1 w1" "only m e1" "only m w1" by blast
  from Cons.IH [OF rest] obtain e2 w2 where 2: "s' = extend t e2 w2" "only m e2" "only m w2" by blast
  have "s' = extend s (e1 @ e2) (w1 @ w2)" using 1 2 by simp
  with 1 2 show ?case by (intro exI [of _ "e1 @ e2"] exI [of _ "w1 @ w2"]) simp
qed

lemma check_array_responses_emits:
  "check_array_responses jsSpec config pathKey opKey op res = Inr res' \<Longrightarrow>
     \<exists>es ws. res' = extend res es ws \<and> only msg_array_response es \<and> only msg_array_response ws"
  unfolding check_array_responses_def
  by (auto simp: bindE_eq_Inr no_emission split: if_splits
           elim!: foldE_emits [rotated] dest: check_response_emits)

lemma check_param_emits:
  "check_param jsSpec s pathKey opKey ps i (fo, res) = Inr (fo', res') \<Longrightarrow>
     \<exists>es ws. res' = extend res es ws \<and> only msg_parameter_order es \<and> only msg_parameter_order ws"
  unfolding check_param_def
  by (auto simp: bindE_eq_Inr no_emission split: if_splits dest: push_emits)

lemma param_loop_emits:
  "foldE (check_param jsSpec s pathKey opKey ps) xs (fo, res) = Inr (fo', res') \<Longrightarrow>
     \<exists>es ws. res' = extend res es ws \<and> only msg_parameter_order es \<and> only msg_parameter_order ws"
proof (induction xs arbitrary: fo res)
  case Nil
  then show ?case by (simp add: no_emission)
next
  case (Cons x xs)
  from Cons.prems obtain fo1 r1 where t: "check_param jsSpec s pathKey opKey ps x (fo, res) = Inr (fo1, r1)"
      and rest: "foldE (check_param jsSpec s pathKey opKey ps) xs (fo1, r1) = Inr (fo', res')"
    by (auto simp: bindE_eq_Inr)
  from check_param_emits [OF t] obtain e1 w1 where
    1: "r1 = extend res e1 w1" "only msg_parameter_order e1" "only msg_parameter_order w1" by blast
  from Cons.IH [OF rest] obtain e2 w2 where
    2: "res' = extend r1 e2 w2" "only msg_parameter_order e2" "only msg_parameter_order w2" by blast
  have "res' = extend res (e1 @ e2) (w1 @ w2)" using 1 2 by simp
  with 1 2 show ?case by (intro exI [of _ "e1 @ e2"] exI [of _ "w1 @ w2"]) simp
qed

lemma check_parameter_order_emits:
  "check_parameter_order jsSpec config pathKey opKey op res = Inr res' \<Longrightarrow>
     \<exists>es ws. res' = extend res es ws \<and> only msg_parameter_order es \<and> only msg_parameter_order ws"
  unfolding check_parameter_order_def
  by (auto simp: bindE_eq_Inr no_emission split: if_splits dest: param_loop_emits)

subsection \<open>The steps of one visit\<close>

lemma messages_neq [simp]:
  "msg_consumes \<noteq> msg_produces" "msg_consumes \<noteq> msg_get_consumes"
  "msg_consumes \<noteq> msg_array_response" "msg_consumes \<noteq> msg_operation_id"
  "msg_consumes \<noteq> msg_summary" "msg_consumes \<noteq> msg_parameter_order"
  "msg_produces \<noteq> msg_consumes" "msg_produces \<noteq> msg_get_consumes"
  "msg_produces \<noteq> msg_array_response" "msg_produces \<noteq> msg_operation_id"
  "msg_produces \<noteq> msg_summary" "msg_produces \<noteq> msg_parameter_order"
  "msg_get_consumes \<noteq> msg_consumes" "msg_get_consumes \<noteq> msg_produces"
  "msg_get_consumes \<noteq> msg_array_response" "msg_get_consumes \<noteq> msg_operation_id"
  "msg_get_consumes \<noteq> msg_summary" "msg_get_consumes \<noteq> msg_parameter_order"
  "msg_array_response \<noteq> msg_consumes" "msg_array_response \<noteq> msg_produces"
  "msg_array_response \<noteq> msg_get_consumes" "msg_array_response \<noteq> msg_operation_id"
  "msg_array_response \<noteq> msg_summary" "msg_array_response \<noteq> msg_parameter_order"
  "msg_operation_id \<noteq> msg_consumes" "msg_operation_id \<noteq> msg_produces"
  "msg_operation_id \<noteq> msg_get_consumes" "msg_operation_id \<noteq> msg_array_response"
  "msg_operation_id \<noteq> msg_summary" "msg_operation_id \<noteq> msg_parameter_order"
  "msg_summary \<noteq> msg_consumes" "msg_summary \<noteq> msg_produces"
  "msg_summary \<noteq> msg_get_consumes" "msg_summary \<noteq> msg_array_response"
  "msg_summary \<noteq> msg_operation_id" "msg_summary \<noteq> msg_parameter_order"
  "msg_parameter_order \<noteq> msg_consumes" "msg_parameter_order \<noteq> msg_produces"
  "msg_parameter_order \<noteq> msg_get_consumes" "msg_parameter_order \<noteq> msg_array_response"
  "msg_parameter_order \<noteq> msg_operation_id" "msg_parameter_order \<noteq> msg_summary"
  by (simp_all add: msg_consumes_def msg_produces_def msg_get_consumes_def
        msg_array_response_def msg_operation_id_def msg_summary_def msg_parameter_order_def)

lemma messages_not_empty:
  "msg_consumes \<noteq> []" "msg_produces \<noteq> []" "msg_get_consumes \<noteq> []" "msg_array_response \<noteq> []"
  "msg_operation_id \<noteq> []" "msg_summary \<noteq> []" "msg_parameter_order \<noteq> []"
  by (simp_all add: msg_consumes_def msg_produces_def msg_get_consumes_def
        msg_array_response_def msg_operation_id_def msg_summary_def msg_parameter_order_def)

lemma source_position_simps:
  "source_position msg_consumes = 1" "source_position msg_produces = 2"
  "source_position msg_get_consumes = 3" "source_position msg_array_response = 4"
  "source_position msg_operation_id = 5" "source_position msg_summary = 6"
  "source_position msg_parameter_order = 7"
  by (simp_all add: source_position_def)

lemma visit_op_steps:
  assumes "visit_op jsSpec config pathKey (opKey, op) res = Inr res'"
  shows "(getp op ''x-sdk-exclude'' = Inr (JBool True) \<and> res' = res) \<or>
         (getp op ''x-sdk-exclude'' \<noteq> Inr (JBool True) \<and>
          (\<exists>r1 r2 r3 r4 r5 r6.
             check_consumes jsSpec config pathKey opKey op res = Inr r1 \<and>
             check_produces jsSpec config pathKey opKey op r1 = Inr r2 \<and>
             check_get_consumes config pathKey opKey op r2 = Inr r3 \<and>
             check_array_responses jsSpec config pathKey opKey op r3 = Inr r4 \<and>
             check_operation_id config pathKey opKey op r4 = Inr r5 \<and>
             check_summary config pathKey opKey op r5 = Inr r6 \<and>
             check_parameter_order jsSpec config pathKey opKey op r6 = Inr res'))"
  using assms unfolding visit_op_def
  by (auto simp: bindE_eq_Inr split: if_splits)

lemma only_rule_findings: "only m fs \<Longrightarrow> m \<noteq> m' \<Longrightarrow> rule_findings m' fs = []"
  by (induction fs) (auto simp: rule_findings_def)

lemma rule_findings_append [simp]:
  "rule_findings m (fs @ gs) = rule_findings m fs @ rule_findings m gs"
  by (simp add: rule_findings_def)

lemma rule_findings_single [simp]:
  "rule_findings m [\<lparr>path = p, message = m\<rparr>] = [\<lparr>path = p, message = m\<rparr>]"
  by (simp add: rule_findings_def)

lemma rule_findings_nil [simp]: "rule_findings m [] = []"
  by (simp add: rule_findings_def)

lemma emits_keeps:
  assumes "\<exists>es ws. res' = extend res es ws \<and> only m es \<and> only m ws" and "m \<noteq> m'"
  shows "rule_findings m' (error res') = rule_findings m' (error res) \<and>
         rule_findings m' (warning res') = rule_findings m' (warning res)"
  using assms by (auto simp: only_rule_findings)

lemma toLowerCase_methods [simp]:
  "toLowerCase ''get'' = ''get''" "toLowerCase ''head'' = ''head''"
  "toLowerCase ''post'' = ''post''" "toLowerCase ''put'' = ''put''"
  "toLowerCase ''patch'' = ''patch''" "toLowerCase ''delete'' = ''delete''"
  "toLowerCase ''options'' = ''options''"
  by (simp_all add: toLowerCase_def lower_chr_def)

lemma toLowerCase_method: "opKey \<in> set methods \<Longrightarrow> toLowerCase opKey = opKey"
  by (auto simp: methods_def)

subsection \<open>The order of the findings\<close>

lemma in_order_upto_nil [simp]: "in_order_upto k []"
  by (simp add: in_order_upto_def)

lemma in_order_upto_append:
  assumes "in_order_upto k fs" and "only m gs" and "k \<le> source_position m"
  shows "in_order_upto (source_position m) (fs @ gs)"
proof -
  have g: "list_all (\<lambda>f. source_position (message f) = source_position m) gs"
    using assms(2) by (induction gs) (auto simp: only_def)
  have sg: "sorted (map (\<lambda>f. source_position (message f)) gs)"
    using g by (induction gs) (auto simp: list_all_iff)
  show ?thesis
    using assms(1,3) g sg
    by (auto simp: in_order_upto_def sorted_append list_all_iff)
qed

lemma step_in_order:
  assumes "\<exists>es ws. r = extend res es ws \<and> in_order_upto k es \<and> in_order_upto k ws"
    and "\<exists>es ws. r' = extend r es ws \<and> only m es \<and> only m ws"
    and "k \<le> source_position m"
  shows "\<exists>es ws. r' = extend res es ws \<and>
           in_order_upto (source_position m) es \<and> in_order_upto (source_position m) ws"
proof -
  from assms(1) obtain e1 w1 where 1: "r = extend res e1 w1" "in_order_upto k e1" "in_order_upto k w1"
    by blast
  from assms(2) obtain e2 w2 where 2: "r' = extend r e2 w2" "only m e2" "only m w2"
    by blast
  have "r' = extend res (e1 @ e2) (w1 @ w2)" using 1 2 by simp
  moreover have "in_order_upto (source_position m) (e1 @ e2)"
    using in_order_upto_append [OF 1(2) 2(2) assms(3)] .
  moreover have "in_order_upto (source_position m) (w1 @ w2)"
    using in_order_upto_append [OF 1(3) 2(3) assms(3)] .
  ultimately show ?thesis by blast
qed

subsection \<open>What a check leaves alone, and what R1 and R2 add\<close>

lemma check_consumes_keeps:
  "check_consumes jsSpec config pathKey opKey op res = Inr res' \<Longrightarrow> m \<noteq> msg_consumes \<Longrightarrow>
     rule_findings m (error res') = rule_findings m (error res) \<and>
     rule_findings m (warning res') = rule_findings m (warning res)"
  by (rule emits_keeps [OF check_consumes_emits]) auto

lemma check_produces_keeps:
  "check_produces jsSpec config pathKey opKey op res = Inr res' \<Longrightarrow> m \<noteq> msg_produces \<Longrightarrow>
     rule_findings m (error res') = rule_findings m (error res) \<and>
     rule_findings m (warning res') = rule_findings m (warning res)"
  by (rule emits_keeps [OF check_produces_emits]) auto

lemma check_get_consumes_keeps:
  "check_get_consumes config pathKey opKey op res = Inr res' \<Longrightarrow> m \<noteq> msg_get_consumes \<Longrightarrow>
     rule_findings m (error res') = rule_findings m (error res) \<and>
     rule_findings m (warning res') = rule_findings m (warning res)"
  by (rule emits_keeps [OF check_get_consumes_emits]) auto

lemma check_array_responses_keeps:
  "check_array_responses jsSpec config pathKey opKey op res = Inr res' \<Longrightarrow> m \<noteq> msg_array_response \<Longrightarrow>
     rule_findings m (error res') = rule_findings m (error res) \<and>
     rule_findings m (warning res') = rule_findings m (warning res)"
  by (rule emits_keeps [OF check_array_responses_emits]) auto

lemma check_operation_id_keeps:
  "check_operation_id config pathKey opKey op res = Inr res' \<Longrightarrow> m \<noteq> msg_operation_id \<Longrightarrow>
     rule_findings m (error res') = rule_findings m (error res) \<and>
     rule_findings m (warning res') = rule_findings m (warning res)"
  by (rule emits_keeps [OF check_operation_id_emits]) auto

lemma check_summary_keeps:
  "check_summary config pathKey opKey op res = Inr res' \<Longrightarrow> m \<noteq> msg_summary \<Longrightarrow>
     rule_findings m (error res') = rule_findings m (error res) \<and>
     rule_findings m (warning res') = rule_findings m (warning res)"
  by (rule emits_keeps [OF check_summary_emits]) auto

lemma check_parameter_order_keeps:
  "check_parameter_order jsSpec config pathKey opKey op res = Inr res' \<Longrightarrow> m \<noteq> msg_parameter_order \<Longrightarrow>
     rule_findings m (error res') = rule_findings m (error res) \<and>
     rule_findings m (warning res') = rule_findings m (warning res)"
  by (rule emits_keeps [OF check_parameter_order_emits]) auto


lemma check_get_consumes_exact:
  assumes "check_get_consumes config pathKey opKey op res = Inr res'"
    and "getp op ''consumes'' = Inr c" and "getp config ''get_op_has_consumes'' = Inr s"
  shows "res' = extend res
           (if toLowerCase opKey = ''get'' \<and> truthy c \<and> routes s ''error''
            then [\<lparr>path = op_path pathKey opKey ''consumes'', message = msg_get_consumes\<rparr>] else [])
           (if toLowerCase opKey = ''get'' \<and> truthy c \<and> routes s ''warning''
            then [\<lparr>path = op_path pathKey opKey ''consumes'', message = msg_get_consumes\<rparr>] else [])"
  using assms unfolding check_get_consumes_def
  by (auto simp: bindE_eq_Inr split: if_splits dest!: report_Inr)

lemma has_entries_array:
  "has_entries (JArr xs) = Inr False \<longleftrightarrow> xs = [] \<or> (\<exists>s. join [] xs = Inr s \<and> trim s = [])"
  by (cases "join [] xs")
     (auto simp: has_entries_def gt_zero_def call_join_def)

subsection \<open>The loop over the parameters\<close>

lemma check_param_required:
  assumes "check_param jsSpec s pathKey opKey (JArr ps) i (fo, res) = Inr st" and "i < length ps"
  shows "st = (if fo < 0 then (if is_required jsSpec (ps ! i) then (fo, res) else (int i, res))
               else (fo, if is_required jsSpec (ps ! i)
                         then extend res (if to_str s = Inr ''error'' then [parameter_finding pathKey opKey i] else [])
                                         (if to_str s = Inr ''warning'' then [parameter_finding pathKey opKey i] else [])
                         else res))"
  using assms unfolding check_param_def is_required_def parameter_finding_def
  by (auto simp: bindE_eq_Inr split: if_splits dest!: push_Inr)

lemma param_loop_required:
  assumes "foldE (check_param jsSpec s pathKey opKey (JArr ps)) xs (fo, res) = Inr st"
    and "fo < 0" and "list_all (\<lambda>i. i < length ps \<and> is_required jsSpec (ps ! i)) xs"
  shows "st = (fo, res)"
  using assms
proof (induction xs arbitrary: st)
  case Nil
  then show ?case by simp
next
  case (Cons i xs)
  from Cons.prems(1) obtain t where t: "check_param jsSpec s pathKey opKey (JArr ps) i (fo, res) = Inr t"
      and rest: "foldE (check_param jsSpec s pathKey opKey (JArr ps)) xs t = Inr st"
    by (auto simp: bindE_eq_Inr)
  have "t = (fo, res)" using check_param_required [OF t] Cons.prems(2,3) by simp
  with rest Cons show ?case by simp
qed

lemma param_loop_optional:
  assumes "foldE (check_param jsSpec s pathKey opKey (JArr ps)) xs (fo, res) = Inr st"
    and "0 \<le> fo" and "list_all (\<lambda>i. i < length ps) xs"
  shows "st = (fo, extend res
           (if to_str s = Inr ''error''
            then map (parameter_finding pathKey opKey) (filter (\<lambda>i. is_required jsSpec (ps ! i)) xs) else [])
           (if to_str s = Inr ''warning''
            then map (parameter_finding pathKey opKey) (filter (\<lambda>i. is_required jsSpec (ps ! i)) xs) else []))"
  using assms
proof (induction xs arbitrary: res st)
  case Nil
  then show ?case by simp
next
  case (Cons i xs)
  from Cons.prems(1) obtain t where t: "check_param jsSpec s pathKey opKey (JArr ps) i (fo, res) = Inr t"
      and rest: "foldE (check_param jsSpec s pathKey opKey (JArr ps)) xs t = Inr st"
    by (auto simp: bindE_eq_Inr)
  have i: "i < length ps" and xs: "list_all (\<lambda>i. i < length ps) xs" using Cons.prems(3) by simp_all
  note c = check_param_required [OF t i]
  show ?case
  proof (cases "is_required jsSpec (ps ! i)")
    case True
    with c Cons.prems(2) have "t = (fo, extend res (if to_str s = Inr ''error'' then [parameter_finding pathKey opKey i] else [])
                                         (if to_str s = Inr ''warning'' then [parameter_finding pathKey opKey i] else []))"
      by simp
    with rest have "foldE (check_param jsSpec s pathKey opKey (JArr ps)) xs
        (fo, extend res (if to_str s = Inr ''error'' then [parameter_finding pathKey opKey i] else [])
                        (if to_str s = Inr ''warning'' then [parameter_finding pathKey opKey i] else [])) = Inr st"
      by simp
    from Cons.IH [OF this Cons.prems(2) xs] True show ?thesis by simp
  next
    case False
    with c Cons.prems(2) have "t = (fo, res)" by simp
    with rest have "foldE (check_param jsSpec s pathKey opKey (JArr ps)) xs (fo, res) = Inr st"
      by simp
    from Cons.IH [OF this Cons.prems(2) xs] False show ?thesis by simp
  qed
qed

lemma upt_split_first_optional:
  assumes "first_optional req < length req"
  shows "[0..<length req] = [0..<first_optional req] @ first_optional req # [Suc (first_optional req)..<length req]"
  using assms by (metis le0 upt_add_eq_append upt_conv_Cons le_add_diff_inverse less_imp_le_nat)

lemma before_first_optional: "i < first_optional req \<Longrightarrow> req ! i"
  unfolding first_optional_def using takeWhile_nth [of i "\<lambda>b. b" req] nth_mem [of i "takeWhile (\<lambda>b. b) req"]
  by (metis set_takeWhileD)

lemma at_first_optional: "first_optional req < length req \<Longrightarrow> \<not> req ! first_optional req"
  unfolding first_optional_def using nth_length_takeWhile [of "\<lambda>b. b" req] by simp

lemma first_optional_le: "first_optional req \<le> length req"
  by (simp add: first_optional_def length_takeWhile_le)

lemma param_loop_exact:
  assumes f: "foldE (check_param jsSpec s pathKey opKey (JArr ps)) [0..<length ps] (- 1, res) = Inr st"
  shows "snd st = extend res
           (if to_str s = Inr ''error''
            then map (parameter_finding pathKey opKey) (violations (map (is_required jsSpec) ps)) else [])
           (if to_str s = Inr ''warning''
            then map (parameter_finding pathKey opKey) (violations (map (is_required jsSpec) ps)) else [])"
proof -
  let ?req = "map (is_required jsSpec) ps"
  let ?k = "first_optional ?req"
  let ?step = "check_param jsSpec s pathKey opKey (JArr ps)"
  have kle: "?k \<le> length ps" using first_optional_le [of ?req] by simp
  have pre: "list_all (\<lambda>i. i < length ps \<and> is_required jsSpec (ps ! i)) [0..<?k]"
    using before_first_optional [of _ ?req] kle by (auto simp: list_all_iff)
  show ?thesis
  proof (cases "?k < length ps")
    case False
    then have k: "?k = length ps" using kle by simp
    from f have "st = (- 1, res)"
      using param_loop_required [of jsSpec s pathKey opKey ps "[0..<length ps]" "- 1" res st] pre k by simp
    moreover have "violations ?req = []" using k by (simp add: violations_def)
    ultimately show ?thesis by simp
  next
    case True
    then have split: "[0..<length ps] = [0..<?k] @ ?k # [Suc ?k..<length ps]"
      using upt_split_first_optional [of ?req] by simp
    from f obtain t1 where t1: "foldE ?step [0..<?k] (- 1, res) = Inr t1"
        and r1: "foldE ?step (?k # [Suc ?k..<length ps]) t1 = Inr st"
      by (subst (asm) split) (auto simp: foldE_append bindE_eq_Inr)
    have "t1 = (- 1, res)" using param_loop_required [OF t1 _ pre] by simp
    with r1 obtain t2 where t2: "?step ?k (- 1, res) = Inr t2"
        and r2: "foldE ?step [Suc ?k..<length ps] t2 = Inr st"
      by (auto simp: bindE_eq_Inr)
    have nk: "\<not> is_required jsSpec (ps ! ?k)"
      using at_first_optional [of ?req] True by simp
    have "t2 = (int ?k, res)" using check_param_required [OF t2 True] nk by simp
    with r2 have "st = (int ?k, extend res
           (if to_str s = Inr ''error''
            then map (parameter_finding pathKey opKey) (filter (\<lambda>i. is_required jsSpec (ps ! i)) [Suc ?k..<length ps]) else [])
           (if to_str s = Inr ''warning''
            then map (parameter_finding pathKey opKey) (filter (\<lambda>i. is_required jsSpec (ps ! i)) [Suc ?k..<length ps]) else []))"
      using param_loop_optional [of jsSpec s pathKey opKey ps "[Suc ?k..<length ps]" "int ?k" res st]
      by (simp add: list_all_iff)
    moreover have "violations ?req = filter (\<lambda>i. is_required jsSpec (ps ! i)) [Suc ?k..<length ps]"
      unfolding violations_def by (rule filter_cong) auto
    ultimately show ?thesis by simp
  qed
qed

lemma check_parameter_order_exact:
  assumes "check_parameter_order jsSpec config pathKey opKey op res = Inr res'"
    and "getp config ''parameter_order'' = Inr s" and "getp op ''parameters'' = Inr (JArr ps)"
  shows "res' = extend res
           (if routes s ''error''
            then map (parameter_finding pathKey opKey) (violations (map (is_required jsSpec) ps)) else [])
           (if routes s ''warning''
            then map (parameter_finding pathKey opKey) (violations (map (is_required jsSpec) ps)) else [])"
proof (cases "s = JStr ''off'' \<or> ps = []")
  case True
  have "res' = res"
    using assms(1) True
    by (auto simp: check_parameter_order_def assms(2,3) gt_zero_def split: if_splits)
  moreover have "s = JStr ''off'' \<or> violations (map (is_required jsSpec) ps) = []"
    using True by (auto simp: violations_def first_optional_def)
  ultimately show ?thesis by (auto simp: routes_def)
next
  case False
  with assms(1) obtain st where
    st: "foldE (check_param jsSpec s pathKey opKey (JArr ps)) [0..<length ps] (- 1, res) = Inr st"
    and r: "res' = snd st"
    by (auto simp: check_parameter_order_def assms(2,3) gt_zero_def loop_count_def bindE_eq_Inr
             split: if_splits)
  from param_loop_exact [OF st] r False show ?thesis by (simp add: routes_def)
qed

lemma rule_findings_parameter_findings [simp]:
  "rule_findings msg_parameter_order (map (parameter_finding pathKey opKey) xs) =
     map (parameter_finding pathKey opKey) xs"
  by (induction xs) (simp_all add: rule_findings_def parameter_finding_def)

subsection \<open>An unroutable severity against off\<close>

text \<open>A check that returns under \<open>c1\<close> returns the same under \<open>c2\<close>, when \<open>off_instead k c1 c2\<close>.\<close>

lemma map_of_set_member: "map_of (set_member k v kvs) k' = (if k' = k then Some v else map_of kvs k')"
  by (induction kvs) auto

lemma getp_set_member:
  "getp (JObj (set_member k v kvs)) k' = (if k' = k then Inr v else getp (JObj kvs) k')"
  by (simp add: map_of_set_member)

lemma unroutable_push: "unroutable v \<Longrightarrow> push v f res = Inl TypeError \<or> (\<exists>e. to_str v = Inl e \<and> push v f res = Inl e)"
  by (cases "to_str v") (auto simp: unroutable_def push_def)

lemma unroutable_push_Inr: "unroutable v \<Longrightarrow> push v f res \<noteq> Inr res'"
  using unroutable_push [of v f res] by auto

lemma unroutable_report_Inr: "unroutable v \<Longrightarrow> report v p m res \<noteq> Inr res'"
  by (simp add: report_def unroutable_push_Inr) (simp add: unroutable_def)

lemma unroutable_push_Inl: "unroutable v \<Longrightarrow> \<exists>e. push v f res = Inl e"
  using unroutable_push [of v f res] by auto

lemma unroutable_report_Inl: "unroutable v \<Longrightarrow> \<exists>e. report v p m res = Inl e"
  using unroutable_push_Inl [of v] by (simp add: report_def unroutable_def)

lemma unroutable_check_response:
  "unroutable v \<Longrightarrow> check_response jsSpec v pathKey opKey entry res = Inr res' \<Longrightarrow> res' = res"
  unfolding check_response_def
  by (cases entry) (auto simp: bindE_eq_Inr unroutable_push_Inr split: if_splits)

lemma unroutable_check_param:
  "unroutable v \<Longrightarrow> check_param jsSpec v pathKey opKey ps i st = Inr st' \<Longrightarrow> snd st' = snd st"
  unfolding check_param_def
  by (cases st) (auto simp: bindE_eq_Inr unroutable_push_Inr split: if_splits)

lemma unroutable_param_loop:
  "unroutable v \<Longrightarrow> foldE (check_param jsSpec v pathKey opKey ps) xs st = Inr st' \<Longrightarrow> snd st' = snd st"
proof (induction xs arbitrary: st)
  case Nil
  then show ?case by simp
next
  case (Cons x xs)
  from Cons.prems(2) obtain t where t: "check_param jsSpec v pathKey opKey ps x st = Inr t"
      and rest: "foldE (check_param jsSpec v pathKey opKey ps) xs t = Inr st'"
    by (auto simp: bindE_eq_Inr)
  from unroutable_check_param [OF Cons.prems(1) t] Cons.IH [OF Cons.prems(1) rest]
  show ?case by simp
qed

lemma check_consumes_sim:
  assumes "off_instead k c1 c2" and "check_consumes jsSpec c1 pathKey opKey op res = Inr res'"
  shows "check_consumes jsSpec c2 pathKey opKey op res = Inr res'"
proof (cases "k = ''no_consumes_for_put_or_post''")
  case False
  with assms(1) have eq: "getp c2 ''no_consumes_for_put_or_post'' = getp c1 ''no_consumes_for_put_or_post''"
    by (simp add: off_instead_def)
  show ?thesis
    unfolding check_consumes_def eq using assms(2) [unfolded check_consumes_def] .
next
  case True
  with assms(1) obtain v where v: "getp c1 ''no_consumes_for_put_or_post'' = Inr v" "unroutable v"
    and o: "getp c2 ''no_consumes_for_put_or_post'' = Inr (JStr ''off'')"
    by (auto simp: off_instead_def)
  from assms(2) show ?thesis
    unfolding check_consumes_def
    by (auto simp: bindE_eq_Inr v o unroutable_report_Inr [OF v(2)] split: if_splits)
qed

lemma check_produces_sim:
  assumes "off_instead k c1 c2" and "check_produces jsSpec c1 pathKey opKey op res = Inr res'"
  shows "check_produces jsSpec c2 pathKey opKey op res = Inr res'"
proof (cases "k = ''no_produces''")
  case False
  with assms(1) have eq: "getp c2 ''no_produces'' = getp c1 ''no_produces''"
    by (simp add: off_instead_def)
  show ?thesis
    unfolding check_produces_def eq using assms(2) [unfolded check_produces_def] .
next
  case True
  with assms(1) obtain v where v: "getp c1 ''no_produces'' = Inr v" "unroutable v"
    and o: "getp c2 ''no_produces'' = Inr (JStr ''off'')"
    by (auto simp: off_instead_def)
  from assms(2) show ?thesis
    unfolding check_produces_def
    by (auto simp: bindE_eq_Inr v o unroutable_report_Inr [OF v(2)] split: if_splits)
qed

lemma check_get_consumes_sim:
  assumes "off_instead k c1 c2" and "check_get_consumes c1 pathKey opKey op res = Inr res'"
  shows "check_get_consumes c2 pathKey opKey op res = Inr res'"
proof (cases "k = ''get_op_has_consumes''")
  case False
  with assms(1) have eq: "getp c2 ''get_op_has_consumes'' = getp c1 ''get_op_has_consumes''"
    by (simp add: off_instead_def)
  show ?thesis
    unfolding check_get_consumes_def eq using assms(2) [unfolded check_get_consumes_def] .
next
  case True
  with assms(1) obtain v where v: "getp c1 ''get_op_has_consumes'' = Inr v" "unroutable v"
    and o: "getp c2 ''get_op_has_consumes'' = Inr (JStr ''off'')"
    by (auto simp: off_instead_def)
  from assms(2) show ?thesis
    unfolding check_get_consumes_def
    by (auto simp: bindE_eq_Inr v o unroutable_report_Inr [OF v(2)] split: if_splits)
qed

lemma check_operation_id_sim:
  assumes "off_instead k c1 c2" and "check_operation_id c1 pathKey opKey op res = Inr res'"
  shows "check_operation_id c2 pathKey opKey op res = Inr res'"
proof (cases "k = ''no_operation_id''")
  case False
  with assms(1) have eq: "getp c2 ''no_operation_id'' = getp c1 ''no_operation_id''"
    by (simp add: off_instead_def)
  show ?thesis
    unfolding check_operation_id_def eq using assms(2) [unfolded check_operation_id_def] .
next
  case True
  with assms(1) obtain v where v: "getp c1 ''no_operation_id'' = Inr v" "unroutable v"
    and o: "getp c2 ''no_operation_id'' = Inr (JStr ''off'')"
    by (auto simp: off_instead_def)
  from assms(2) show ?thesis
    unfolding check_operation_id_def
    by (auto simp: bindE_eq_Inr v o unroutable_report_Inr [OF v(2)] split: if_splits)
qed

lemma check_summary_sim:
  assumes "off_instead k c1 c2" and "check_summary c1 pathKey opKey op res = Inr res'"
  shows "check_summary c2 pathKey opKey op res = Inr res'"
proof (cases "k = ''no_summary''")
  case False
  with assms(1) have eq: "getp c2 ''no_summary'' = getp c1 ''no_summary''"
    by (simp add: off_instead_def)
  show ?thesis
    unfolding check_summary_def eq using assms(2) [unfolded check_summary_def] .
next
  case True
  with assms(1) obtain v where v: "getp c1 ''no_summary'' = Inr v" "unroutable v"
    and o: "getp c2 ''no_summary'' = Inr (JStr ''off'')"
    by (auto simp: off_instead_def)
  from assms(2) show ?thesis
    unfolding check_summary_def
    by (auto simp: bindE_eq_Inr v o unroutable_report_Inr [OF v(2)] split: if_splits)
qed

lemma check_array_responses_sim:
  assumes "off_instead k c1 c2" and "check_array_responses jsSpec c1 pathKey opKey op res = Inr res'"
  shows "check_array_responses jsSpec c2 pathKey opKey op res = Inr res'"
proof (cases "k = ''no_array_responses''")
  case False
  with assms(1) have eq: "getp c2 ''no_array_responses'' = getp c1 ''no_array_responses''"
    by (simp add: off_instead_def)
  show ?thesis
    unfolding check_array_responses_def eq using assms(2) [unfolded check_array_responses_def] .
next
  case True
  with assms(1) obtain v where v: "getp c1 ''no_array_responses'' = Inr v" "unroutable v"
    and o: "getp c2 ''no_array_responses'' = Inr (JStr ''off'')"
    by (auto simp: off_instead_def)
  have "res' = res"
    using assms(2) foldE_unchanged [of "check_response jsSpec v pathKey opKey", OF unroutable_check_response [OF v(2)]]
    unfolding check_array_responses_def
    by (auto simp: bindE_eq_Inr v split: if_splits)
  then show ?thesis
    by (simp add: check_array_responses_def o)
qed

lemma check_parameter_order_sim:
  assumes "off_instead k c1 c2" and "check_parameter_order jsSpec c1 pathKey opKey op res = Inr res'"
  shows "check_parameter_order jsSpec c2 pathKey opKey op res = Inr res'"
proof (cases "k = ''parameter_order''")
  case False
  with assms(1) have eq: "getp c2 ''parameter_order'' = getp c1 ''parameter_order''"
    by (simp add: off_instead_def)
  show ?thesis
    unfolding check_parameter_order_def eq using assms(2) [unfolded check_parameter_order_def] .
next
  case True
  with assms(1) obtain v where v: "getp c1 ''parameter_order'' = Inr v" "unroutable v"
    and o: "getp c2 ''parameter_order'' = Inr (JStr ''off'')"
    by (auto simp: off_instead_def)
  have "res' = res"
    using assms(2) unroutable_param_loop [OF v(2)]
    unfolding check_parameter_order_def
    by (auto simp: bindE_eq_Inr v split: if_splits)
  then show ?thesis
    by (simp add: check_parameter_order_def o)
qed

lemma visit_op_sim:
  assumes a: "off_instead k c1 c2" and v: "visit_op jsSpec c1 pathKey entry res = Inr res'"
  shows "visit_op jsSpec c2 pathKey entry res = Inr res'"
proof (cases entry)
  case (Pair opKey op)
  from visit_op_steps [OF v [unfolded Pair]] consider
    (excluded) "getp op ''x-sdk-exclude'' = Inr (JBool True)" "res' = res"
  | (visited) r1 r2 r3 r4 r5 r6 where
      "getp op ''x-sdk-exclude'' \<noteq> Inr (JBool True)"
      "check_consumes jsSpec c1 pathKey opKey op res = Inr r1"
      "check_produces jsSpec c1 pathKey opKey op r1 = Inr r2"
      "check_get_consumes c1 pathKey opKey op r2 = Inr r3"
      "check_array_responses jsSpec c1 pathKey opKey op r3 = Inr r4"
      "check_operation_id c1 pathKey opKey op r4 = Inr r5"
      "check_summary c1 pathKey opKey op r5 = Inr r6"
      "check_parameter_order jsSpec c1 pathKey opKey op r6 = Inr res'"
    by blast
  then show ?thesis
  proof cases
    case excluded
    then show ?thesis by (simp add: visit_op_def Pair)
  next
    case visited
    from visited(1) obtain x where x: "getp op ''x-sdk-exclude'' = Inr x" "x \<noteq> JBool True"
      using v [unfolded Pair visit_op_def] by (cases "getp op ''x-sdk-exclude''") auto
    note s1 = check_consumes_sim [OF a visited(2)]
      and s2 = check_produces_sim [OF a visited(3)]
      and s3 = check_get_consumes_sim [OF a visited(4)]
      and s4 = check_array_responses_sim [OF a visited(5)]
      and s5 = check_operation_id_sim [OF a visited(6)]
      and s6 = check_summary_sim [OF a visited(7)]
      and s7 = check_parameter_order_sim [OF a visited(8)]
    show ?thesis
      by (simp add: visit_op_def Pair x s1 s2 s3 s4 s5 s6 s7)
  qed
qed

lemma visit_path_sim:
  assumes a: "off_instead k c1 c2" and v: "visit_path jsSpec c1 entry res = Inr res'"
  shows "visit_path jsSpec c2 entry res = Inr res'"
proof (cases entry)
  case (Pair pathItem pathKey)
  show ?thesis
  proof (cases pathKey)
    case (JStr p)
    show ?thesis
    proof (cases "take 2 p = ''x-''")
      case True
      with v show ?thesis by (simp add: visit_path_def Pair JStr)
    next
      case False
      with v have "foldE (visit_op jsSpec c1 p) (pick pathItem methods) res = Inr res'"
        by (simp add: visit_path_def Pair JStr)
      then have "foldE (visit_op jsSpec c2 p) (pick pathItem methods) res = Inr res'"
        by (rule foldE_sim [rotated]) (rule visit_op_sim [OF a])
      with False show ?thesis by (simp add: visit_path_def Pair JStr)
    qed
  qed (use v in \<open>simp_all add: visit_path_def Pair\<close>)
qed

subsection \<open>An unroutable severity against error\<close>

text \<open>Under \<open>error_instead k c1 c2\<close>, every step of the traversal under \<open>c1\<close> throws where the step
  under \<open>c2\<close> adds a finding of the rule \<open>k\<close>, and returns the same elsewhere.\<close>

lemma message_of_simps:
  "message_of ''no_consumes_for_put_or_post'' = msg_consumes"
  "message_of ''no_produces'' = msg_produces"
  "message_of ''get_op_has_consumes'' = msg_get_consumes"
  "message_of ''no_array_responses'' = msg_array_response"
  "message_of ''no_operation_id'' = msg_operation_id"
  "message_of ''no_summary'' = msg_summary"
  "message_of ''parameter_order'' = msg_parameter_order"
  by (simp_all add: message_of_def)

lemma message_of_other:
  "k \<noteq> ''no_consumes_for_put_or_post'' \<Longrightarrow> message_of k \<noteq> msg_consumes"
  "k \<noteq> ''no_produces'' \<Longrightarrow> message_of k \<noteq> msg_produces"
  "k \<noteq> ''get_op_has_consumes'' \<Longrightarrow> message_of k \<noteq> msg_get_consumes"
  "k \<noteq> ''no_array_responses'' \<Longrightarrow> message_of k \<noteq> msg_array_response"
  "k \<noteq> ''no_operation_id'' \<Longrightarrow> message_of k \<noteq> msg_operation_id"
  "k \<noteq> ''no_summary'' \<Longrightarrow> message_of k \<noteq> msg_summary"
  "k \<noteq> ''parameter_order'' \<Longrightarrow> message_of k \<noteq> msg_parameter_order"
  using messages_not_empty by (auto simp: message_of_def)

lemma throws_where_addsI:
  assumes "\<And>s s'. f2 s = Inr s' \<Longrightarrow>
        \<exists>x. rule_findings m (error (proj s')) = rule_findings m (error (proj s)) @ x \<and>
             (if x = [] then f1 s = Inr s' else (\<exists>e. f1 s = Inl e))"
  shows "throws_where_adds m proj f1 f2"
  using assms unfolding throws_where_adds_def by blast

lemma throws_where_addsD:
  assumes "throws_where_adds m proj f1 f2" and "f2 s = Inr s'"
  shows "\<exists>x. rule_findings m (error (proj s')) = rule_findings m (error (proj s)) @ x \<and>
             (if x = [] then f1 s = Inr s' else (\<exists>e. f1 s = Inl e))"
  using assms unfolding throws_where_adds_def by blast

lemma throws_where_adds_same:
  assumes "\<And>s s'. f s = Inr s' \<Longrightarrow>
      rule_findings m (error (proj s')) = rule_findings m (error (proj s))"
  shows "throws_where_adds m proj f f"
  by (rule throws_where_addsI) (auto dest: assms)

lemma throws_where_adds_bind:
  assumes f: "throws_where_adds m proj f1 f2" and g: "throws_where_adds m proj g1 g2"
  shows "throws_where_adds m proj (\<lambda>s. bindE (f1 s) g1) (\<lambda>s. bindE (f2 s) g2)"
proof (rule throws_where_addsI)
  fix s s'
  assume "bindE (f2 s) g2 = Inr s'"
  then obtain t where t: "f2 s = Inr t" and r: "g2 t = Inr s'"
    by (auto simp: bindE_eq_Inr)
  from throws_where_addsD [OF f t] obtain x where
    x: "rule_findings m (error (proj t)) = rule_findings m (error (proj s)) @ x"
       "if x = [] then f1 s = Inr t else (\<exists>e. f1 s = Inl e)"
    by blast
  from throws_where_addsD [OF g r] obtain y where
    y: "rule_findings m (error (proj s')) = rule_findings m (error (proj t)) @ y"
       "if y = [] then g1 t = Inr s' else (\<exists>e. g1 t = Inl e)"
    by blast
  have "rule_findings m (error (proj s')) = rule_findings m (error (proj s)) @ (x @ y)"
    using x(1) y(1) by simp
  moreover have "if x @ y = [] then bindE (f1 s) g1 = Inr s' else (\<exists>e. bindE (f1 s) g1 = Inl e)"
    using x(2) y(2) by (cases "x = []") auto
  ultimately show "\<exists>x. rule_findings m (error (proj s')) = rule_findings m (error (proj s)) @ x \<and>
             (if x = [] then bindE (f1 s) g1 = Inr s' else (\<exists>e. bindE (f1 s) g1 = Inl e))"
    by blast
qed

lemma throws_where_adds_foldE:
  assumes "\<And>x. throws_where_adds m proj (f1 x) (f2 x)"
  shows "throws_where_adds m proj (foldE f1 xs) (foldE f2 xs)"
proof (induction xs)
  case Nil
  show ?case by (rule throws_where_addsI) simp
next
  case (Cons x xs)
  have "throws_where_adds m proj (\<lambda>s. bindE (f1 x s) (foldE f1 xs)) (\<lambda>s. bindE (f2 x s) (foldE f2 xs))"
    by (rule throws_where_adds_bind [OF assms Cons.IH])
  then show ?case by (simp add: throws_where_adds_def)
qed

lemma throws_where_adds_pre:
  assumes "\<And>x. throws_where_adds m proj (f1 x) (f2 x)"
  shows "throws_where_adds m proj (\<lambda>s. bindE a (\<lambda>x. f1 x s)) (\<lambda>s. bindE a (\<lambda>x. f2 x s))"
proof (cases a)
  case (Inl e)
  then show ?thesis by (simp add: throws_where_adds_def)
next
  case (Inr x)
  with assms [of x] show ?thesis by (simp add: throws_where_adds_def)
qed

lemma throws_where_adds_if:
  assumes "c \<Longrightarrow> throws_where_adds m proj f1 f2" and "\<not> c \<Longrightarrow> throws_where_adds m proj g1 g2"
  shows "throws_where_adds m proj (\<lambda>s. if c then f1 s else g1 s) (\<lambda>s. if c then f2 s else g2 s)"
  using assms by (cases c) simp_all

lemma throws_where_adds_skip: "throws_where_adds m proj Inr Inr"
  by (rule throws_where_addsI) simp

lemma throws_where_adds_report:
  assumes "unroutable v"
  shows "throws_where_adds m (\<lambda>r. r) (report v p m) (report (JStr ''error'') p m)"
proof (rule throws_where_addsI)
  fix s s'
  assume "report (JStr ''error'') p m s = Inr s'"
  then have s': "s' = extend s [\<lparr>path = p, message = m\<rparr>] []" by (simp add: report_error)
  have "rule_findings m (error s') = rule_findings m (error s) @ [\<lparr>path = p, message = m\<rparr>]"
    by (simp add: s')
  moreover have "\<exists>e. report v p m s = Inl e" by (rule unroutable_report_Inl [OF assms])
  ultimately show "\<exists>x. rule_findings m (error s') = rule_findings m (error s) @ x \<and>
         (if x = [] then report v p m s = Inr s' else \<exists>e. report v p m s = Inl e)"
    by (intro exI [of _ "[\<lparr>path = p, message = m\<rparr>]"]) simp
qed

lemma throws_where_adds_push:
  assumes "unroutable v" and "message f = m"
  shows "throws_where_adds m (\<lambda>r. r) (push v f) (push (JStr ''error'') f)"
proof (rule throws_where_addsI)
  fix s s'
  assume "push (JStr ''error'') f s = Inr s'"
  then have s': "s' = extend s [f] []" by (simp add: push_error)
  have "rule_findings m (error s') = rule_findings m (error s) @ [f]"
    using assms(2) by (simp add: s' rule_findings_def)
  moreover have "\<exists>e. push v f s = Inl e" by (rule unroutable_push_Inl [OF assms(1)])
  ultimately show "\<exists>x. rule_findings m (error s') = rule_findings m (error s) @ x \<and>
         (if x = [] then push v f s = Inr s' else \<exists>e. push v f s = Inl e)"
    by (intro exI [of _ "[f]"]) simp
qed

lemma throws_where_adds_loop:
  assumes "throws_where_adds m snd f1 f2"
  shows "throws_where_adds m (\<lambda>r. r)
           (\<lambda>s. bindE (f1 (i, s)) (\<lambda>st. Inr (snd st))) (\<lambda>s. bindE (f2 (i, s)) (\<lambda>st. Inr (snd st)))"
proof (rule throws_where_addsI)
  fix s s'
  assume "bindE (f2 (i, s)) (\<lambda>st. Inr (snd st)) = Inr s'"
  then obtain st where st: "f2 (i, s) = Inr st" and s': "s' = snd st"
    by (auto simp: bindE_eq_Inr)
  from throws_where_addsD [OF assms st] obtain x where
    "rule_findings m (error (snd st)) = rule_findings m (error s) @ x"
    "if x = [] then f1 (i, s) = Inr st else (\<exists>e. f1 (i, s) = Inl e)"
    by auto
  then show "\<exists>x. rule_findings m (error s') = rule_findings m (error s) @ x \<and>
         (if x = [] then bindE (f1 (i, s)) (\<lambda>st. Inr (snd st)) = Inr s'
          else \<exists>e. bindE (f1 (i, s)) (\<lambda>st. Inr (snd st)) = Inl e)"
    by (intro exI [of _ x]) (auto simp: s')
qed

lemma check_consumes_throws:
  assumes a: "error_instead k c1 c2"
  shows "throws_where_adds (message_of k) (\<lambda>r. r)
           (check_consumes jsSpec c1 pathKey opKey op) (check_consumes jsSpec c2 pathKey opKey op)"
proof (cases "k = ''no_consumes_for_put_or_post''")
  case False
  with a have eq: "getp c2 ''no_consumes_for_put_or_post'' = getp c1 ''no_consumes_for_put_or_post''"
    by (simp add: error_instead_def)
  have "check_consumes jsSpec c2 pathKey opKey op = check_consumes jsSpec c1 pathKey opKey op"
    by (rule ext) (simp only: check_consumes_def eq)
  then show ?thesis
    using check_consumes_keeps [of jsSpec c1 pathKey opKey op _ _ "message_of k"] message_of_other(1) [OF False]
    by (simp add: throws_where_adds_same)
next
  case True
  with a obtain v where v: "getp c1 ''no_consumes_for_put_or_post'' = Inr v" "unroutable v"
    and e: "getp c2 ''no_consumes_for_put_or_post'' = Inr (JStr ''error'')"
    by (auto simp: error_instead_def)
  have f1: "check_consumes jsSpec c1 pathKey opKey op =
      (\<lambda>s. if toLowerCase opKey \<in> set [''put'', ''post'']
           then bindE (getp op ''consumes'') (\<lambda>c. bindE (has_entries c) (\<lambda>b.
                bindE (getp jsSpec ''consumes'') (\<lambda>g.
                  if \<not> b \<and> \<not> truthy g
                  then report v (op_path pathKey opKey ''consumes'') msg_consumes s else Inr s)))
           else Inr s)"
    by (rule ext) (simp only: check_consumes_def v bindE_Inr)
  have f2: "check_consumes jsSpec c2 pathKey opKey op =
      (\<lambda>s. if toLowerCase opKey \<in> set [''put'', ''post'']
           then bindE (getp op ''consumes'') (\<lambda>c. bindE (has_entries c) (\<lambda>b.
                bindE (getp jsSpec ''consumes'') (\<lambda>g.
                  if \<not> b \<and> \<not> truthy g
                  then report (JStr ''error'') (op_path pathKey opKey ''consumes'') msg_consumes s
                  else Inr s)))
           else Inr s)"
    by (rule ext) (simp only: check_consumes_def e bindE_Inr)
  show ?thesis
    unfolding True message_of_simps f1 f2
    by (intro throws_where_adds_if throws_where_adds_pre throws_where_adds_report [OF v(2)]
          throws_where_adds_skip)
qed

lemma check_produces_throws:
  assumes a: "error_instead k c1 c2"
  shows "throws_where_adds (message_of k) (\<lambda>r. r)
           (check_produces jsSpec c1 pathKey opKey op) (check_produces jsSpec c2 pathKey opKey op)"
proof (cases "k = ''no_produces''")
  case False
  with a have eq: "getp c2 ''no_produces'' = getp c1 ''no_produces''"
    by (simp add: error_instead_def)
  have "check_produces jsSpec c2 pathKey opKey op = check_produces jsSpec c1 pathKey opKey op"
    by (rule ext) (simp only: check_produces_def eq)
  then show ?thesis
    using check_produces_keeps [of jsSpec c1 pathKey opKey op _ _ "message_of k"] message_of_other(2) [OF False]
    by (simp add: throws_where_adds_same)
next
  case True
  with a obtain v where v: "getp c1 ''no_produces'' = Inr v" "unroutable v"
    and e: "getp c2 ''no_produces'' = Inr (JStr ''error'')"
    by (auto simp: error_instead_def)
  have f1: "check_produces jsSpec c1 pathKey opKey op =
      (\<lambda>s. if toLowerCase opKey \<noteq> ''head''
           then bindE (getp op ''produces'') (\<lambda>p. bindE (has_entries p) (\<lambda>hasLocalProduces. bindE (getp jsSpec ''produces'') (\<lambda>g. if \<not> hasLocalProduces \<and> \<not> truthy g
                  then report v (op_path pathKey opKey ''produces'') msg_produces s else Inr s)))
           else Inr s)"
    by (rule ext) (simp only: check_produces_def v bindE_Inr)
  have f2: "check_produces jsSpec c2 pathKey opKey op =
      (\<lambda>s. if toLowerCase opKey \<noteq> ''head''
           then bindE (getp op ''produces'') (\<lambda>p. bindE (has_entries p) (\<lambda>hasLocalProduces. bindE (getp jsSpec ''produces'') (\<lambda>g. if \<not> hasLocalProduces \<and> \<not> truthy g
                  then report (JStr ''error'') (op_path pathKey opKey ''produces'') msg_produces s else Inr s)))
           else Inr s)"
    by (rule ext) (simp only: check_produces_def e bindE_Inr)
  show ?thesis
    unfolding True message_of_simps f1 f2
    by (intro throws_where_adds_if throws_where_adds_pre throws_where_adds_report [OF v(2)]
          throws_where_adds_skip)
qed

lemma check_get_consumes_throws:
  assumes a: "error_instead k c1 c2"
  shows "throws_where_adds (message_of k) (\<lambda>r. r)
           (check_get_consumes c1 pathKey opKey op) (check_get_consumes c2 pathKey opKey op)"
proof (cases "k = ''get_op_has_consumes''")
  case False
  with a have eq: "getp c2 ''get_op_has_consumes'' = getp c1 ''get_op_has_consumes''"
    by (simp add: error_instead_def)
  have "check_get_consumes c2 pathKey opKey op = check_get_consumes c1 pathKey opKey op"
    by (rule ext) (simp only: check_get_consumes_def eq)
  then show ?thesis
    using check_get_consumes_keeps [of c1 pathKey opKey op _ _ "message_of k"] message_of_other(3) [OF False]
    by (simp add: throws_where_adds_same)
next
  case True
  with a obtain v where v: "getp c1 ''get_op_has_consumes'' = Inr v" "unroutable v"
    and e: "getp c2 ''get_op_has_consumes'' = Inr (JStr ''error'')"
    by (auto simp: error_instead_def)
  have f1: "check_get_consumes c1 pathKey opKey op =
      (\<lambda>s. if toLowerCase opKey = ''get''
           then bindE (getp op ''consumes'') (\<lambda>c. if truthy c
                  then report v (op_path pathKey opKey ''consumes'') msg_get_consumes s else Inr s)
           else Inr s)"
    by (rule ext) (simp only: check_get_consumes_def v bindE_Inr)
  have f2: "check_get_consumes c2 pathKey opKey op =
      (\<lambda>s. if toLowerCase opKey = ''get''
           then bindE (getp op ''consumes'') (\<lambda>c. if truthy c
                  then report (JStr ''error'') (op_path pathKey opKey ''consumes'') msg_get_consumes s else Inr s)
           else Inr s)"
    by (rule ext) (simp only: check_get_consumes_def e bindE_Inr)
  show ?thesis
    unfolding True message_of_simps f1 f2
    by (intro throws_where_adds_if throws_where_adds_pre throws_where_adds_report [OF v(2)]
          throws_where_adds_skip)
qed

lemma check_operation_id_throws:
  assumes a: "error_instead k c1 c2"
  shows "throws_where_adds (message_of k) (\<lambda>r. r)
           (check_operation_id c1 pathKey opKey op) (check_operation_id c2 pathKey opKey op)"
proof (cases "k = ''no_operation_id''")
  case False
  with a have eq: "getp c2 ''no_operation_id'' = getp c1 ''no_operation_id''"
    by (simp add: error_instead_def)
  have "check_operation_id c2 pathKey opKey op = check_operation_id c1 pathKey opKey op"
    by (rule ext) (simp only: check_operation_id_def eq)
  then show ?thesis
    using check_operation_id_keeps [of c1 pathKey opKey op _ _ "message_of k"] message_of_other(5) [OF False]
    by (simp add: throws_where_adds_same)
next
  case True
  with a obtain v where v: "getp c1 ''no_operation_id'' = Inr v" "unroutable v"
    and e: "getp c2 ''no_operation_id'' = Inr (JStr ''error'')"
    by (auto simp: error_instead_def)
  have f1: "check_operation_id c1 pathKey opKey op =
      (\<lambda>s. bindE (getp op ''operationId'') (\<lambda>w. bindE (has_text w) (\<lambda>hasOperationId. if \<not> hasOperationId
                  then report v (op_path pathKey opKey ''operationId'') msg_operation_id s else Inr s)))"
    by (rule ext) (simp only: check_operation_id_def v bindE_Inr)
  have f2: "check_operation_id c2 pathKey opKey op =
      (\<lambda>s. bindE (getp op ''operationId'') (\<lambda>w. bindE (has_text w) (\<lambda>hasOperationId. if \<not> hasOperationId
                  then report (JStr ''error'') (op_path pathKey opKey ''operationId'') msg_operation_id s else Inr s)))"
    by (rule ext) (simp only: check_operation_id_def e bindE_Inr)
  show ?thesis
    unfolding True message_of_simps f1 f2
    by (intro throws_where_adds_if throws_where_adds_pre throws_where_adds_report [OF v(2)]
          throws_where_adds_skip)
qed

lemma check_summary_throws:
  assumes a: "error_instead k c1 c2"
  shows "throws_where_adds (message_of k) (\<lambda>r. r)
           (check_summary c1 pathKey opKey op) (check_summary c2 pathKey opKey op)"
proof (cases "k = ''no_summary''")
  case False
  with a have eq: "getp c2 ''no_summary'' = getp c1 ''no_summary''"
    by (simp add: error_instead_def)
  have "check_summary c2 pathKey opKey op = check_summary c1 pathKey opKey op"
    by (rule ext) (simp only: check_summary_def eq)
  then show ?thesis
    using check_summary_keeps [of c1 pathKey opKey op _ _ "message_of k"] message_of_other(6) [OF False]
    by (simp add: throws_where_adds_same)
next
  case True
  with a obtain v where v: "getp c1 ''no_summary'' = Inr v" "unroutable v"
    and e: "getp c2 ''no_summary'' = Inr (JStr ''error'')"
    by (auto simp: error_instead_def)
  have f1: "check_summary c1 pathKey opKey op =
      (\<lambda>s. bindE (getp op ''summary'') (\<lambda>w. bindE (has_text w) (\<lambda>hasSummary. if \<not> hasSummary
                  then report v (op_path pathKey opKey ''summary'') msg_summary s else Inr s)))"
    by (rule ext) (simp only: check_summary_def v bindE_Inr)
  have f2: "check_summary c2 pathKey opKey op =
      (\<lambda>s. bindE (getp op ''summary'') (\<lambda>w. bindE (has_text w) (\<lambda>hasSummary. if \<not> hasSummary
                  then report (JStr ''error'') (op_path pathKey opKey ''summary'') msg_summary s else Inr s)))"
    by (rule ext) (simp only: check_summary_def e bindE_Inr)
  show ?thesis
    unfolding True message_of_simps f1 f2
    by (intro throws_where_adds_if throws_where_adds_pre throws_where_adds_report [OF v(2)]
          throws_where_adds_skip)
qed

lemma check_response_throws:
  assumes "unroutable v"
  shows "throws_where_adds msg_array_response (\<lambda>r. r)
           (check_response jsSpec v pathKey opKey entry)
           (check_response jsSpec (JStr ''error'') pathKey opKey entry)"
proof (cases entry)
  case (Pair response name)
  have f: "check_response jsSpec st pathKey opKey (response, name) =
      (\<lambda>s. bindE (getp response ''schema'') (\<lambda>schema.
          if truthy schema then
            bindE (resolveRef schema jsSpec) (\<lambda>responseSchema.
              if truthy responseSchema then
                bindE (getp responseSchema ''type'') (\<lambda>t.
                  if t = JStr ''array'' then
                    bindE (to_str name) (\<lambda>n.
                      push st
                        \<lparr>path = op_path pathKey opKey (''responses.'' @ n @ ''.schema''),
                         message = msg_array_response\<rparr> s)
                  else Inr s)
              else Inr s)
          else Inr s))" for st
    by (rule ext) (simp add: check_response_def)
  show ?thesis
    unfolding Pair f
    by (intro throws_where_adds_if throws_where_adds_pre throws_where_adds_push [OF assms]
          throws_where_adds_skip) simp
qed

lemma check_array_responses_throws:
  assumes a: "error_instead k c1 c2"
  shows "throws_where_adds (message_of k) (\<lambda>r. r)
           (check_array_responses jsSpec c1 pathKey opKey op)
           (check_array_responses jsSpec c2 pathKey opKey op)"
proof (cases "k = ''no_array_responses''")
  case False
  with a have eq: "getp c2 ''no_array_responses'' = getp c1 ''no_array_responses''"
    by (simp add: error_instead_def)
  have "check_array_responses jsSpec c2 pathKey opKey op = check_array_responses jsSpec c1 pathKey opKey op"
    by (rule ext) (simp only: check_array_responses_def eq)
  then show ?thesis
    using check_array_responses_keeps [of jsSpec c1 pathKey opKey op _ _ "message_of k"]
      message_of_other(4) [OF False]
    by (simp add: throws_where_adds_same)
next
  case True
  with a obtain v where v: "getp c1 ''no_array_responses'' = Inr v" "unroutable v"
    and e: "getp c2 ''no_array_responses'' = Inr (JStr ''error'')"
    by (auto simp: error_instead_def)
  have vne: "v \<noteq> JStr ''off''" using v(2) by (simp add: unroutable_def)
  have f1: "check_array_responses jsSpec c1 pathKey opKey op =
      (\<lambda>s. if toLowerCase opKey = ''get''
           then bindE (getp op ''responses'') (\<lambda>responses.
                  foldE (check_response jsSpec v pathKey opKey) (entries responses) s)
           else Inr s)"
    by (rule ext) (simp add: check_array_responses_def v vne)
  have f2: "check_array_responses jsSpec c2 pathKey opKey op =
      (\<lambda>s. if toLowerCase opKey = ''get''
           then bindE (getp op ''responses'') (\<lambda>responses.
                  foldE (check_response jsSpec (JStr ''error'') pathKey opKey) (entries responses) s)
           else Inr s)"
    by (rule ext) (simp add: check_array_responses_def e)
  show ?thesis
    unfolding True message_of_simps f1 f2
    by (intro throws_where_adds_if throws_where_adds_pre throws_where_adds_foldE
          check_response_throws [OF v(2)] throws_where_adds_skip)
qed

lemma check_param_throws:
  assumes "unroutable v"
  shows "throws_where_adds msg_parameter_order snd
           (check_param jsSpec v pathKey opKey parameters indx)
           (check_param jsSpec (JStr ''error'') pathKey opKey parameters indx)"
proof (rule throws_where_addsI)
  fix s s' :: "int \<times> result"
  obtain fo res where s: "s = (fo, res)" by (cases s)
  let ?f = "\<lparr>path = ''paths.'' @ pathKey @ ''.'' @ opKey @ ''.parameters['' @ show_nat indx @ '']'',
             message = msg_parameter_order\<rparr>"
  assume r: "check_param jsSpec (JStr ''error'') pathKey opKey parameters indx s = Inr s'"
  then obtain obj param required where o: "elem_at parameters indx = Inr obj"
    "resolveRef obj jsSpec = Inr param" "getp param ''required'' = Inr required"
    unfolding check_param_def s by (auto simp: bindE_eq_Inr split: if_splits)
  have cp: "check_param jsSpec st pathKey opKey parameters indx (fo, res) =
      (if fo < 0 then (if \<not> truthy required then Inr (int indx, res) else Inr (fo, res))
       else (if truthy required then bindE (push st ?f res) (\<lambda>res'. Inr (fo, res'))
             else Inr (fo, res)))" for st
    by (simp add: check_param_def o)
  show "\<exists>x. rule_findings msg_parameter_order (error (snd s')) =
          rule_findings msg_parameter_order (error (snd s)) @ x \<and>
         (if x = [] then check_param jsSpec v pathKey opKey parameters indx s = Inr s'
          else \<exists>e. check_param jsSpec v pathKey opKey parameters indx s = Inl e)"
  proof (cases "0 \<le> fo \<and> truthy required")
    case False
    with r have "check_param jsSpec v pathKey opKey parameters indx s = Inr s'" "snd s' = snd s"
      unfolding s cp by (auto split: if_splits)
    then show ?thesis by (intro exI [of _ "[]"]) simp
  next
    case True
    with r have s': "s' = (fo, extend res [?f] [])"
      unfolding s cp by (simp add: push_error)
    obtain e where "push v ?f res = Inl e" using unroutable_push_Inl [OF assms] by blast
    with True have "check_param jsSpec v pathKey opKey parameters indx s = Inl e"
      unfolding s cp by simp
    then show ?thesis by (intro exI [of _ "[?f]"]) (simp add: s s')
  qed
qed

lemma check_parameter_order_throws:
  assumes a: "error_instead k c1 c2"
  shows "throws_where_adds (message_of k) (\<lambda>r. r)
           (check_parameter_order jsSpec c1 pathKey opKey op)
           (check_parameter_order jsSpec c2 pathKey opKey op)"
proof (cases "k = ''parameter_order''")
  case False
  with a have eq: "getp c2 ''parameter_order'' = getp c1 ''parameter_order''"
    by (simp add: error_instead_def)
  have "check_parameter_order jsSpec c2 pathKey opKey op = check_parameter_order jsSpec c1 pathKey opKey op"
    by (rule ext) (simp only: check_parameter_order_def eq)
  then show ?thesis
    using check_parameter_order_keeps [of jsSpec c1 pathKey opKey op _ _ "message_of k"]
      message_of_other(7) [OF False]
    by (simp add: throws_where_adds_same)
next
  case True
  with a obtain v where v: "getp c1 ''parameter_order'' = Inr v" "unroutable v"
    and e: "getp c2 ''parameter_order'' = Inr (JStr ''error'')"
    by (auto simp: error_instead_def)
  have vne: "v \<noteq> JStr ''off''" using v(2) by (simp add: unroutable_def)
  have f: "st \<noteq> JStr ''off'' \<Longrightarrow> getp c ''parameter_order'' = Inr st \<Longrightarrow>
      check_parameter_order jsSpec c pathKey opKey op =
      (\<lambda>s. bindE (getp op ''parameters'') (\<lambda>parameters.
           if truthy parameters then
             bindE (getp parameters ''length'') (\<lambda>l.
             bindE (gt_zero l) (\<lambda>positive.
               if positive then
                 bindE (loop_count l) (\<lambda>n.
                 bindE (foldE (check_param jsSpec st pathKey opKey parameters) [0..<n] (- 1, s))
                   (\<lambda>st. Inr (snd st)))
               else Inr s))
           else Inr s))" for st c
    by (rule ext) (simp add: check_parameter_order_def)
  show ?thesis
    unfolding True message_of_simps f [OF vne v(1)] f [OF _ e, simplified]
    by (intro throws_where_adds_if throws_where_adds_pre throws_where_adds_loop
          throws_where_adds_foldE check_param_throws [OF v(2)] throws_where_adds_skip)
qed

lemma visit_op_throws:
  assumes a: "error_instead k c1 c2"
  shows "throws_where_adds (message_of k) (\<lambda>r. r)
           (visit_op jsSpec c1 pathKey entry) (visit_op jsSpec c2 pathKey entry)"
proof (cases entry)
  case (Pair opKey op)
  have f: "visit_op jsSpec c pathKey (opKey, op) =
      (\<lambda>s. bindE (getp op ''x-sdk-exclude'') (\<lambda>excluded.
          if excluded = JBool True then Inr s
          else
            bindE (check_consumes jsSpec c pathKey opKey op s) (\<lambda>r1.
            bindE (check_produces jsSpec c pathKey opKey op r1) (\<lambda>r2.
            bindE (check_get_consumes c pathKey opKey op r2) (\<lambda>r3.
            bindE (check_array_responses jsSpec c pathKey opKey op r3) (\<lambda>r4.
            bindE (check_operation_id c pathKey opKey op r4) (\<lambda>r5.
            bindE (check_summary c pathKey opKey op r5) (\<lambda>r6.
              check_parameter_order jsSpec c pathKey opKey op r6))))))))" for c
    by (rule ext) (simp add: visit_op_def)
  show ?thesis
    unfolding Pair f
    by (intro throws_where_adds_pre throws_where_adds_if throws_where_adds_skip
          throws_where_adds_bind check_consumes_throws [OF a] check_produces_throws [OF a]
          check_get_consumes_throws [OF a] check_array_responses_throws [OF a]
          check_operation_id_throws [OF a] check_summary_throws [OF a]
          check_parameter_order_throws [OF a])
qed

lemma visit_path_throws:
  assumes a: "error_instead k c1 c2"
  shows "throws_where_adds (message_of k) (\<lambda>r. r)
           (visit_path jsSpec c1 entry) (visit_path jsSpec c2 entry)"
proof (cases entry)
  case (Pair pathItem pathKey)
  show ?thesis
  proof (cases pathKey)
    case (JStr p)
    have f: "visit_path jsSpec c (pathItem, JStr p) =
        (\<lambda>s. if take 2 p = ''x-'' then Inr s
             else foldE (visit_op jsSpec c p) (pick pathItem methods) s)" for c
      by (rule ext) (simp add: visit_path_def)
    show ?thesis
      unfolding Pair JStr f
      by (intro throws_where_adds_if throws_where_adds_skip throws_where_adds_foldE
            visit_op_throws [OF a])
  qed (simp_all add: Pair visit_path_def throws_where_adds_def)
qed

lemma validate_throws:
  assumes a: "error_instead k (JObj ops1) (JObj ops2)"
    and c1: "getp config1 ''operations'' = Inr (JObj ops1)"
    and c2: "getp config2 ''operations'' = Inr (JObj ops2)"
    and r: "validate arg config2 = Inr r"
  shows "if rule_findings (message_of k) (errors r) = [] then validate arg config1 = Inr r
         else (\<exists>e. validate arg config1 = Inl e)"
proof -
  from r obtain jsSpec paths u res where
    1: "getp arg ''jsSpec'' = Inr jsSpec" and 2: "getp jsSpec ''paths'' = Inr paths"
    and 3: "map_result_array paths = Inr u"
    and 4: "foldE (visit_path jsSpec (JObj ops2)) (entries paths) \<lparr>error = [], warning = []\<rparr> = Inr res"
    and 5: "r = \<lparr>errors = error res, warnings = warning res\<rparr>"
    unfolding validate_def c2 by (auto simp: bindE_eq_Inr)
  have "throws_where_adds (message_of k) (\<lambda>r. r)
      (foldE (visit_path jsSpec (JObj ops1)) (entries paths))
      (foldE (visit_path jsSpec (JObj ops2)) (entries paths))"
    by (intro throws_where_adds_foldE visit_path_throws [OF a])
  from throws_where_addsD [OF this 4] obtain x where
    x: "rule_findings (message_of k) (error res) = x"
    "if x = [] then foldE (visit_path jsSpec (JObj ops1)) (entries paths) \<lparr>error = [], warning = []\<rparr> = Inr res
     else (\<exists>e. foldE (visit_path jsSpec (JObj ops1)) (entries paths) \<lparr>error = [], warning = []\<rparr> = Inl e)"
    by auto
  show ?thesis
  proof (cases "x = []")
    case True
    with x have "validate arg config1 = Inr r"
      unfolding validate_def c1 by (simp add: 1 2 3 5)
    with True x(1) 5 show ?thesis by simp
  next
    case False
    with x obtain e where
      "foldE (visit_path jsSpec (JObj ops1)) (entries paths) \<lparr>error = [], warning = []\<rparr> = Inl e"
      by auto
    then have "validate arg config1 = Inl e"
      unfolding validate_def c1 by (simp add: 1 2 3)
    with False x(1) 5 show ?thesis by auto
  qed
qed

subsection \<open>A configuration without \<^verbatim>\<open>operations\<close>\<close>

lemma visit_op_without_config:
  assumes "getp op ''x-sdk-exclude'' \<noteq> Inr (JBool True)"
  shows "visit_op jsSpec JUndefined pathKey (opKey, op) res \<noteq> Inr res'"
proof
  assume v: "visit_op jsSpec JUndefined pathKey (opKey, op) res = Inr res'"
  from visit_op_steps [OF v] assms obtain r6 where
    "check_parameter_order jsSpec JUndefined pathKey opKey op r6 = Inr res'"
    by blast
  then show False by (simp add: check_parameter_order_def)
qed

lemma visit_path_without_config:
  assumes "take 2 k \<noteq> ''x-''"
    and "list_ex (\<lambda>(opKey, op). getp op ''x-sdk-exclude'' \<noteq> Inr (JBool True)) (pick pathItem methods)"
  shows "visit_path jsSpec JUndefined (pathItem, JStr k) res \<noteq> Inr res'"
proof -
  from assms(2) obtain opKey op where m: "(opKey, op) \<in> set (pick pathItem methods)"
    and x: "getp op ''x-sdk-exclude'' \<noteq> Inr (JBool True)"
    by (auto simp: list_ex_iff)
  have "foldE (visit_op jsSpec JUndefined k) (pick pathItem methods) res \<noteq> Inr res'"
    by (rule foldE_fails [OF m]) (rule visit_op_without_config [OF x])
  with assms(1) show ?thesis by (simp add: visit_path_def)
qed

lemma check_consumes_without_config:
  assumes "check_consumes jsSpec c0 pathKey opKey op res = Inr res'"
  shows "check_consumes jsSpec JUndefined pathKey opKey op res2 = Inr res2 \<or>
         check_consumes jsSpec JUndefined pathKey opKey op res2 = Inl TypeError"
proof (cases "toLowerCase opKey \<in> set [''put'', ''post'']")
  case False
  then show ?thesis by (simp add: check_consumes_def)
next
  case True
  with assms obtain c b g where "getp op ''consumes'' = Inr c" "has_entries c = Inr b"
    "getp jsSpec ''consumes'' = Inr g"
    unfolding check_consumes_def by (simp add: bindE_eq_Inr) blast
  with True show ?thesis by (simp add: check_consumes_def)
qed

lemma check_produces_without_config:
  assumes "check_produces jsSpec c0 pathKey opKey op res = Inr res'"
  shows "check_produces jsSpec JUndefined pathKey opKey op res2 = Inr res2 \<or>
         check_produces jsSpec JUndefined pathKey opKey op res2 = Inl TypeError"
proof (cases "toLowerCase opKey \<noteq> ''head''")
  case False
  then show ?thesis by (simp add: check_produces_def)
next
  case True
  with assms obtain p b g where "getp op ''produces'' = Inr p" "has_entries p = Inr b"
    "getp jsSpec ''produces'' = Inr g"
    unfolding check_produces_def by (simp add: bindE_eq_Inr) blast
  with True show ?thesis by (simp add: check_produces_def)
qed

lemma check_get_consumes_without_config:
  assumes "check_get_consumes c0 pathKey opKey op res = Inr res'"
  shows "check_get_consumes JUndefined pathKey opKey op res2 = Inr res2 \<or>
         check_get_consumes JUndefined pathKey opKey op res2 = Inl TypeError"
proof (cases "toLowerCase opKey = ''get''")
  case False
  then show ?thesis by (simp add: check_get_consumes_def)
next
  case True
  with assms obtain c where "getp op ''consumes'' = Inr c"
    unfolding check_get_consumes_def by (simp add: bindE_eq_Inr) blast
  with True show ?thesis by (simp add: check_get_consumes_def)
qed

lemma check_array_responses_without_config:
  "check_array_responses jsSpec JUndefined pathKey opKey op res2 = Inr res2 \<or>
   check_array_responses jsSpec JUndefined pathKey opKey op res2 = Inl TypeError"
  unfolding check_array_responses_def by simp

lemma check_operation_id_without_config:
  assumes "check_operation_id c0 pathKey opKey op res = Inr res'"
  shows "check_operation_id JUndefined pathKey opKey op res2 = Inr res2 \<or>
         check_operation_id JUndefined pathKey opKey op res2 = Inl TypeError"
proof -
  from assms obtain v b where "getp op ''operationId'' = Inr v" "has_text v = Inr b"
    unfolding check_operation_id_def by (simp add: bindE_eq_Inr) blast
  then show ?thesis by (simp add: check_operation_id_def)
qed

lemma check_summary_without_config:
  assumes "check_summary c0 pathKey opKey op res = Inr res'"
  shows "check_summary JUndefined pathKey opKey op res2 = Inr res2 \<or>
         check_summary JUndefined pathKey opKey op res2 = Inl TypeError"
proof -
  from assms obtain v b where "getp op ''summary'' = Inr v" "has_text v = Inr b"
    unfolding check_summary_def by (simp add: bindE_eq_Inr) blast
  then show ?thesis by (simp add: check_summary_def)
qed

lemma check_parameter_order_without_config:
  "check_parameter_order jsSpec JUndefined pathKey opKey op res2 = Inl TypeError"
  by (simp add: check_parameter_order_def)

lemma visit_op_config_lookup_fails:
  assumes v: "visit_op jsSpec c0 pathKey (opKey, op) res = Inr res'"
  shows "visit_op jsSpec JUndefined pathKey (opKey, op) res2 =
           (if getp op ''x-sdk-exclude'' = Inr (JBool True) then Inr res2 else Inl TypeError)"
proof -
  from visit_op_steps [OF v] consider
    (excluded) "getp op ''x-sdk-exclude'' = Inr (JBool True)"
  | (visited) r1 r2 r3 r4 r5 r6 where
      "getp op ''x-sdk-exclude'' \<noteq> Inr (JBool True)"
      "check_consumes jsSpec c0 pathKey opKey op res = Inr r1"
      "check_produces jsSpec c0 pathKey opKey op r1 = Inr r2"
      "check_get_consumes c0 pathKey opKey op r2 = Inr r3"
      "check_array_responses jsSpec c0 pathKey opKey op r3 = Inr r4"
      "check_operation_id c0 pathKey opKey op r4 = Inr r5"
      "check_summary c0 pathKey opKey op r5 = Inr r6"
    by blast
  then show ?thesis
  proof cases
    case excluded
    then show ?thesis by (simp add: visit_op_def)
  next
    case visited
    from visited(1) obtain x where x: "getp op ''x-sdk-exclude'' = Inr x" "x \<noteq> JBool True"
      using v [unfolded visit_op_def] by (cases "getp op ''x-sdk-exclude''") auto
    note w1 = check_consumes_without_config [OF visited(2), of res2]
      and w2 = check_produces_without_config [OF visited(3), of res2]
      and w3 = check_get_consumes_without_config [OF visited(4), of res2]
      and w4 = check_array_responses_without_config [of jsSpec pathKey opKey op res2]
      and w5 = check_operation_id_without_config [OF visited(6), of res2]
      and w6 = check_summary_without_config [OF visited(7), of res2]
      and w7 = check_parameter_order_without_config [of jsSpec pathKey opKey op res2]
    have b: "bindE m f = Inl TypeError"
      if "m = Inr res2 \<or> m = Inl TypeError" and "f res2 = Inl TypeError"
      for m :: "js_error + result" and f :: "result \<Rightarrow> js_error + result"
      using that by auto
    have "visit_op jsSpec JUndefined pathKey (opKey, op) res2 = Inl TypeError"
      unfolding visit_op_def
      apply (simp add: x)
      apply (rule b [OF w1])
      apply (rule b [OF w2])
      apply (rule b [OF w3])
      apply (rule b [OF w4])
      apply (rule b [OF w5])
      apply (rule b [OF w6])
      apply (rule w7)
      done
    with visited(1) show ?thesis by simp
  qed
qed

lemma visit_ops_config_lookup_fails:
  assumes "foldE (visit_op jsSpec c0 pathKey) ops res = Inr res'"
  shows "foldE (visit_op jsSpec JUndefined pathKey) ops res2 =
           (if list_ex (\<lambda>(opKey, op). getp op ''x-sdk-exclude'' \<noteq> Inr (JBool True)) ops
            then Inl TypeError else Inr res2)"
  using assms
proof (induction ops arbitrary: res)
  case Nil
  then show ?case by simp
next
  case (Cons e ops)
  obtain opKey op where e: "e = (opKey, op)" by (cases e)
  from Cons.prems obtain t where t: "visit_op jsSpec c0 pathKey (opKey, op) res = Inr t"
      and rest: "foldE (visit_op jsSpec c0 pathKey) ops t = Inr res'"
    by (auto simp: bindE_eq_Inr e)
  from visit_op_config_lookup_fails [OF t, of res2] Cons.IH [OF rest]
  show ?case by (simp add: e)
qed

lemma visit_path_config_lookup_fails:
  assumes "visit_path jsSpec c0 (pathItem, pathKey) res = Inr res'"
  shows "visit_path jsSpec JUndefined (pathItem, pathKey) res2 =
           (if (case pathKey of
                  JStr k \<Rightarrow>
                    take 2 k \<noteq> ''x-'' \<and>
                    list_ex (\<lambda>(opKey, op). getp op ''x-sdk-exclude'' \<noteq> Inr (JBool True))
                      (pick pathItem methods)
                | _ \<Rightarrow> False)
            then Inl TypeError else Inr res2)"
proof (cases pathKey)
  case (JStr k)
  show ?thesis
  proof (cases "take 2 k = ''x-''")
    case True
    then show ?thesis by (simp add: visit_path_def JStr)
  next
    case False
    with assms have "foldE (visit_op jsSpec c0 k) (pick pathItem methods) res = Inr res'"
      by (simp add: visit_path_def JStr)
    from visit_ops_config_lookup_fails [OF this, of res2] False show ?thesis
      by (simp add: visit_path_def JStr)
  qed
qed (use assms in \<open>simp_all add: visit_path_def\<close>)

lemma visit_paths_config_lookup_fails:
  assumes "foldE (visit_path jsSpec c0) es res = Inr res'"
  shows "foldE (visit_path jsSpec JUndefined) es res2 =
           (if list_ex (\<lambda>(pathItem, pathKey).
                  case pathKey of
                    JStr k \<Rightarrow>
                      take 2 k \<noteq> ''x-'' \<and>
                      list_ex (\<lambda>(opKey, op). getp op ''x-sdk-exclude'' \<noteq> Inr (JBool True))
                        (pick pathItem methods)
                  | _ \<Rightarrow> False) es
            then Inl TypeError else Inr res2)"
  using assms
proof (induction es arbitrary: res)
  case Nil
  then show ?case by simp
next
  case (Cons e es)
  obtain pathItem pathKey where e: "e = (pathItem, pathKey)" by (cases e)
  from Cons.prems obtain t where t: "visit_path jsSpec c0 (pathItem, pathKey) res = Inr t"
      and rest: "foldE (visit_path jsSpec c0) es t = Inr res'"
    by (auto simp: bindE_eq_Inr e)
  from visit_path_config_lookup_fails [OF t, of res2] Cons.IH [OF rest]
  show ?case by (simp add: e)
qed

lemma config_lookup_fails:
  assumes "validate arg config0 = Inr r" and "getp config ''operations'' = Inr JUndefined"
    and "getp arg ''jsSpec'' = Inr jsSpec" and "has_operation jsSpec"
  shows "validate arg config = Inl TypeError"
proof -
  from assms(1,3) obtain c0 paths u res where
    2: "getp jsSpec ''paths'' = Inr paths"
    and 3: "map_result_array paths = Inr u"
    and 4: "foldE (visit_path jsSpec c0) (entries paths) \<lparr>error = [], warning = []\<rparr> = Inr res"
    unfolding validate_def by (auto simp: bindE_eq_Inr)
  from assms(4) 2 have ex: "list_ex (\<lambda>(pathItem, pathKey).
                  case pathKey of
                    JStr k \<Rightarrow>
                      take 2 k \<noteq> ''x-'' \<and>
                      list_ex (\<lambda>(opKey, op). getp op ''x-sdk-exclude'' \<noteq> Inr (JBool True))
                        (pick pathItem methods)
                  | _ \<Rightarrow> False) (entries paths)"
    by (simp add: has_operation_def)
  from visit_paths_config_lookup_fails [OF 4, of "\<lparr>error = [], warning = []\<rparr>"] ex
  have "foldE (visit_path jsSpec JUndefined) (entries paths) \<lparr>error = [], warning = []\<rparr> = Inl TypeError"
    by simp
  then show ?thesis
    unfolding validate_def by (simp add: assms(2,3) 2 3)
qed

subsection \<open>References\<close>

lemma unresolved_schema_is_skipped:
  assumes "getp response ''schema'' = Inr schema" and "resolveRef schema jsSpec = Inr JUndefined"
  shows "check_response jsSpec checkStatus pathKey opKey (response, name) res = Inr res"
  using assms by (simp add: check_response_def)

lemma unresolved_parameter_throws:
  assumes "elem_at parameters indx = Inr obj" and "resolveRef obj jsSpec = Inr JUndefined"
  shows "check_param jsSpec checkStatus pathKey opKey parameters indx st = Inl TypeError"
  using assms by (cases st) (simp add: check_param_def)

lemma split_no_separator: "d \<notin> set a \<Longrightarrow> split d a = [a]"
  by (induction a) auto

lemma split_append_separator: "d \<notin> set a \<Longrightarrow> split d (a @ d # rest) = a # split d rest"
  by (induction a) auto

lemma split_join_strings:
  assumes "segs \<noteq> []" and "list_all (\<lambda>e. d \<notin> set e) segs"
  shows "split d (join_strings [d] segs) = segs"
  using assms
proof (induction "[d]" segs rule: join_strings.induct)
  case 1
  then show ?case by simp
next
  case (2 x)
  then show ?case by (simp add: split_no_separator)
next
  case (3 x y ys)
  then show ?case by (simp add: split_append_separator)
qed

lemma match_quoted_literal:
  assumes "q \<notin> set e" and "CHR 0x5C \<notin> set e"
  shows "match_quoted q (e @ q # CHR '']'' # rest) = Some (e, rest)"
  using assms
proof (induction e)
  case Nil
  then show ?case by simp
next
  case (Cons c e)
  then show ?case by (cases e) auto
qed

lemma unescape_literal: "CHR 0x5C \<notin> set e \<Longrightarrow> unescape e = e"
  by (induction e rule: unescape.induct) auto

lemma match_bracket_escaped:
  assumes "literal_segment e"
  shows "match_bracket (CHR 0x22 # e @ CHR 0x22 # CHR '']'' # rest) = Some (e, rest)"
proof -
  have "match_number (CHR 0x22 # e @ CHR 0x22 # CHR '']'' # rest) = None"
    by (simp add: match_number_def is_digit_def)
  moreover have "match_quoted (CHR 0x22) (e @ CHR 0x22 # CHR '']'' # rest) = Some (e, rest)"
    using assms by (intro match_quoted_literal) (simp_all add: literal_segment_def)
  ultimately show ?thesis
    using assms by (simp add: match_bracket_def unescape_literal literal_segment_def)
qed

lemma escape_segment_Cons:
  "escape_segment e @ rest = CHR ''['' # CHR 0x22 # e @ CHR 0x22 # CHR '']'' # rest"
  by (simp add: escape_segment_def)

lemma matches_escaped_segment:
  assumes "literal_segment e"
  shows "rePropName_matches (escape_segment e @ rest) = e # rePropName_matches rest"
  unfolding escape_segment_Cons
  by (subst rePropName_matches.simps) (simp add: is_plain_def match_bracket_escaped [OF assms])

lemma matches_dot_escaped:
  "rePropName_matches (CHR ''.'' # escape_segment e @ rest) = rePropName_matches (escape_segment e @ rest)"
  unfolding escape_segment_Cons
  by (subst rePropName_matches.simps) (simp add: is_plain_def empty_key_here_def after_sep_def)

lemma matches_escaped_path:
  assumes "list_all literal_segment segs"
  shows "rePropName_matches (join_strings ''.'' (map escape_segment segs)) = segs"
  using assms
proof (induction segs)
  case Nil
  then show ?case by (simp add: rePropName_matches.simps)
next
  case (Cons e segs)
  show ?case
  proof (cases segs)
    case Nil
    have "rePropName_matches (escape_segment e @ []) = e # rePropName_matches []"
      using Cons.prems by (intro matches_escaped_segment) simp
    then show ?thesis using Nil by (simp add: rePropName_matches.simps)
  next
    case (Cons e' segs')
    have "join_strings ''.'' (map escape_segment (e # segs)) =
        escape_segment e @ CHR ''.'' # join_strings ''.'' (map escape_segment segs)"
      using Cons by simp
    moreover have "join_strings ''.'' (map escape_segment segs) =
        escape_segment e' @ (case segs' of [] \<Rightarrow> [] | _ \<Rightarrow> CHR ''.'' # join_strings ''.'' (map escape_segment segs'))"
      using Cons by (cases segs') simp_all
    ultimately show ?thesis
      using Cons.prems Cons.IH
      by (simp add: matches_escaped_segment matches_dot_escaped)
  qed
qed

lemma escaped_path_Cons:
  "join_strings ''.'' (map escape_segment (e # segs)) =
     CHR ''['' # CHR 0x22 # e @ CHR 0x22 # CHR '']'' #
       (case segs of [] \<Rightarrow> [] | _ \<Rightarrow> CHR ''.'' # join_strings ''.'' (map escape_segment segs))"
  by (cases segs) (simp_all add: escape_segment_def)

lemma stringToPath_escaped_path:
  assumes "list_all literal_segment segs"
  shows "stringToPath (join_strings ''.'' (map escape_segment segs)) = segs"
proof (cases segs)
  case Nil
  then show ?thesis by (simp add: stringToPath_def rePropName_matches.simps)
next
  case (Cons e segs')
  have "take 1 (join_strings ''.'' (map escape_segment segs)) \<noteq> ''.''"
    unfolding Cons escaped_path_Cons by simp
  then show ?thesis using matches_escaped_path [OF assms] by (simp add: stringToPath_def)
qed

lemma castPath_escaped_path:
  assumes "list_all literal_segment segs" and "segs \<noteq> []"
    and "map_of kvs (join_strings ''.'' (map escape_segment segs)) = None"
  shows "castPath (join_strings ''.'' (map escape_segment segs)) (JObj kvs) = segs"
proof -
  from assms(2) obtain e segs' where s: "segs = e # segs'" by (cases segs) auto
  have e: "literal_segment e" using assms(1) s by simp
  let ?p = "join_strings ''.'' (map escape_segment segs)"
  have "\<not> reIsPlainProp ?p"
    unfolding s escaped_path_Cons by (simp add: reIsPlainProp_def is_word_chr_def)
  moreover have "reIsDeepProp ?p"
    unfolding s escaped_path_Cons using e match_quoted_literal [of "CHR 0x22" e]
    by (simp add: closes_quoted_def literal_segment_def)
  ultimately have "\<not> isKey ?p (JObj kvs)" using assms(3) by (simp add: isKey_def)
  then show ?thesis using stringToPath_escaped_path [OF assms(1)] by (simp add: castPath_def)
qed

lemma baseGet_loop_lookup_keys:
  "lookup_keys object ks = Some v \<Longrightarrow> baseGet_loop object ks = Inr v"
proof (induction object ks rule: lookup_keys.induct)
  case (1 v)
  then show ?case by simp
next
  case (2 kvs k ks)
  then show ?case by (auto split: option.splits)
qed simp_all

lemma ref_path_segments:
  assumes "segs \<noteq> []" and "list_all literal_segment segs"
  shows "ref_path (''#/'' @ join_strings ''/'' segs) = join_strings ''.'' (map escape_segment segs)"
proof -
  have "list_all (\<lambda>e. CHR ''/'' \<notin> set e) segs"
    using assms(2) by (induction segs) (simp_all add: literal_segment_def)
  from split_join_strings [OF assms(1) this]
  have "split CHR ''/'' (''#/'' @ join_strings ''/'' segs) = ''#'' # segs"
    by simp
  then show ?thesis by (simp add: ref_path_def)
qed

lemma literal_segments_resolve:
  assumes "segs \<noteq> []" and "list_all literal_segment segs"
    and "lookup_keys (JObj kvs) segs = Some v"
    and "map_of kvs (ref_path (''#/'' @ join_strings ''/'' segs)) = None"
  shows "resolveRef (JObj [(''$ref'', JStr (''#/'' @ join_strings ''/'' segs))]) (JObj kvs) = Inr v"
proof -
  note p = ref_path_segments [OF assms(1,2)]
  have c: "castPath (ref_path (''#/'' @ join_strings ''/'' segs)) (JObj kvs) = segs"
    unfolding p using castPath_escaped_path [OF assms(2,1)] assms(4) [unfolded p] by simp
  have b: "baseGet (JObj kvs) (ref_path (''#/'' @ join_strings ''/'' segs)) = Inr v"
    unfolding baseGet_def c Let_def
    using assms(1) baseGet_loop_lookup_keys [OF assms(3)] by simp
  have "resolveRef (JObj [(''$ref'', JStr (''#/'' @ join_strings ''/'' segs))]) (JObj kvs) =
      at0 (JObj kvs) (ref_path (''#/'' @ join_strings ''/'' segs))"
    by (simp add: resolveRef_def)
  also have "\<dots> = Inr v"
    unfolding at0_def using b by simp
  finally show ?thesis .
qed

lemma dotted_key_reference_resolves:
  "resolveRef (JObj [(''$ref'', JStr ''#/definitions/Pet.v1[0]'')])
     (JObj [(''definitions'', JObj [(''Pet.v1[0]'', JObj [(''type'', JStr ''array'')])])]) =
     Inr (JObj [(''type'', JStr ''array'')])"
  by code_simp

subsection \<open>A document with one operation\<close>

text \<open>
  The properties of one visit are stated for an arbitrary result so far. On a document with a
  single path and a single operation the whole validation is that one visit, started on the
  empty result.
\<close>

lemma pick_one_method: "opKey \<in> set methods \<Longrightarrow> pick (JObj [(opKey, op)]) methods = [(opKey, op)]"
  by (auto simp: pick_def methods_def List.map_filter_simps)

lemma validate_one_operation:
  assumes "opKey \<in> set methods" and "take 2 pathKey \<noteq> ''x-''"
  shows "validate (JObj [(''jsSpec'', one_operation pathKey opKey op)]) (config_of operations) =
           bindE (visit_op (one_operation pathKey opKey op) operations pathKey (opKey, op) empty_result)
             (\<lambda>res. Inr \<lparr>errors = error res, warnings = warning res\<rparr>)"
proof -
  have "array_like_length [(pathKey, JObj [(opKey, op)])] = None"
    by (simp add: array_like_length_def)
  then have e: "entries (JObj [(pathKey, JObj [(opKey, op)])]) = [(JObj [(opKey, op)], JStr pathKey)]"
    and m: "map_result_array (JObj [(pathKey, JObj [(opKey, op)])]) = Inr ()"
    by (simp_all add: entries_def map_result_array_def)
  have n: "\<And>f. foldE f [] = Inr" by (rule ext) simp
  have b: "\<And>m. bindE m Inr = m" by (case_tac m) simp_all
  show ?thesis
    using assms
    by (simp add: validate_def config_of_def one_operation_def e m visit_path_def
        pick_one_method empty_result_def n b)
qed

subsection \<open>Lists with entries\<close>



lemma blank_simps [simp]: "blank []" "blank (s @ t) = (blank s \<and> blank t)"
  by (simp_all add: blank_def)







subsection \<open>The severity that routes a finding\<close>

lemma severity_routed_simps [simp]:
  "severity_routed c b []"
  "severity_routed c b (fs @ gs) = (severity_routed c b fs \<and> severity_routed c b gs)"
  by (simp_all add: severity_routed_def)

lemma severity_routed_single:
  assumes "getp c k = Inr s" and "k \<in> set rule_names" and "routes s b"
  shows "severity_routed c b [\<lparr>path = p, message = message_of k\<rparr>]"
  using assms by (auto simp: severity_routed_def list_ex_iff)

lemma routed_nil:
  "\<exists>es ws. res = extend res es ws \<and> severity_routed c ''error'' es \<and> severity_routed c ''warning'' ws"
  by (rule exI [of _ "[]"], rule exI [of _ "[]"]) simp

lemma push_routed:
  assumes "push s \<lparr>path = p, message = message_of k\<rparr> res = Inr res'"
    and "s \<noteq> JStr ''off''" and "getp c k = Inr s" and "k \<in> set rule_names"
  shows "\<exists>es ws. res' = extend res es ws \<and>
           severity_routed c ''error'' es \<and> severity_routed c ''warning'' ws"
proof -
  let ?f = "\<lparr>path = p, message = message_of k\<rparr>"
  let ?es = "if to_str s = Inr ''error'' then [?f] else []"
  let ?ws = "if to_str s = Inr ''warning'' then [?f] else []"
  have "res' = extend res ?es ?ws"
    using push_Inr [OF assms(1)] .
  moreover have "severity_routed c ''error'' ?es"
    using severity_routed_single [OF assms(3,4), of "''error''"] assms(2) by (simp add: routes_def)
  moreover have "severity_routed c ''warning'' ?ws"
    using severity_routed_single [OF assms(3,4), of "''warning''"] assms(2) by (simp add: routes_def)
  ultimately show ?thesis by blast
qed

lemma report_routed:
  assumes "report s p (message_of k) res = Inr res'" and "getp c k = Inr s" and "k \<in> set rule_names"
  shows "\<exists>es ws. res' = extend res es ws \<and>
           severity_routed c ''error'' es \<and> severity_routed c ''warning'' ws"
proof (cases "s = JStr ''off''")
  case True
  with assms(1) have "res' = res" by simp
  then show ?thesis using routed_nil by simp
next
  case False
  with assms(1) have "push s \<lparr>path = p, message = message_of k\<rparr> res = Inr res'"
    by (simp add: report_def)
  from push_routed [OF this False assms(2,3)] show ?thesis .
qed

lemma rule_names_simps [simp]:
  "''no_consumes_for_put_or_post'' \<in> set rule_names" "''get_op_has_consumes'' \<in> set rule_names"
  "''no_produces'' \<in> set rule_names" "''no_operation_id'' \<in> set rule_names"
  "''no_summary'' \<in> set rule_names" "''no_array_responses'' \<in> set rule_names"
  "''parameter_order'' \<in> set rule_names"
  by (simp_all add: rule_names_def)

lemma check_consumes_routed:
  "check_consumes jsSpec c pathKey opKey op res = Inr res' \<Longrightarrow>
     \<exists>es ws. res' = extend res es ws \<and>
       severity_routed c ''error'' es \<and> severity_routed c ''warning'' ws"
  unfolding check_consumes_def message_of_simps(1) [symmetric]
  by (auto simp: bindE_eq_Inr routed_nil split: if_splits elim!: report_routed)

lemma check_produces_routed:
  "check_produces jsSpec c pathKey opKey op res = Inr res' \<Longrightarrow>
     \<exists>es ws. res' = extend res es ws \<and>
       severity_routed c ''error'' es \<and> severity_routed c ''warning'' ws"
  unfolding check_produces_def message_of_simps(2) [symmetric]
  by (auto simp: bindE_eq_Inr routed_nil split: if_splits elim!: report_routed)

lemma check_get_consumes_routed:
  "check_get_consumes c pathKey opKey op res = Inr res' \<Longrightarrow>
     \<exists>es ws. res' = extend res es ws \<and>
       severity_routed c ''error'' es \<and> severity_routed c ''warning'' ws"
  unfolding check_get_consumes_def message_of_simps(3) [symmetric]
  by (auto simp: bindE_eq_Inr routed_nil split: if_splits elim!: report_routed)

lemma check_operation_id_routed:
  "check_operation_id c pathKey opKey op res = Inr res' \<Longrightarrow>
     \<exists>es ws. res' = extend res es ws \<and>
       severity_routed c ''error'' es \<and> severity_routed c ''warning'' ws"
  unfolding check_operation_id_def message_of_simps(5) [symmetric]
  by (auto simp: bindE_eq_Inr routed_nil split: if_splits elim!: report_routed)

lemma check_summary_routed:
  "check_summary c pathKey opKey op res = Inr res' \<Longrightarrow>
     \<exists>es ws. res' = extend res es ws \<and>
       severity_routed c ''error'' es \<and> severity_routed c ''warning'' ws"
  unfolding check_summary_def message_of_simps(6) [symmetric]
  by (auto simp: bindE_eq_Inr routed_nil split: if_splits elim!: report_routed)

lemma check_response_routed:
  assumes "check_response jsSpec s pathKey opKey entry res = Inr res'"
    and "s \<noteq> JStr ''off''" and "getp c ''no_array_responses'' = Inr s"
  shows "\<exists>es ws. res' = extend res es ws \<and>
       severity_routed c ''error'' es \<and> severity_routed c ''warning'' ws"
  using assms(1) unfolding check_response_def message_of_simps(4) [symmetric]
  by (cases entry)
     (auto simp: bindE_eq_Inr routed_nil split: if_splits
           elim!: push_routed [OF _ assms(2,3)])

lemma foldE_routed:
  assumes step: "\<And>x s s'. f x s = Inr s' \<Longrightarrow>
      \<exists>es ws. s' = extend s es ws \<and> severity_routed c ''error'' es \<and> severity_routed c ''warning'' ws"
  shows "foldE f xs s = Inr s' \<Longrightarrow>
     \<exists>es ws. s' = extend s es ws \<and> severity_routed c ''error'' es \<and> severity_routed c ''warning'' ws"
proof (induction xs arbitrary: s)
  case Nil
  then show ?case by (simp add: routed_nil)
next
  case (Cons x xs)
  from Cons.prems obtain t where t: "f x s = Inr t" and rest: "foldE f xs t = Inr s'"
    by (auto simp: bindE_eq_Inr)
  from step [OF t] obtain e1 w1 where
    1: "t = extend s e1 w1" "severity_routed c ''error'' e1" "severity_routed c ''warning'' w1"
    by blast
  from Cons.IH [OF rest] obtain e2 w2 where
    2: "s' = extend t e2 w2" "severity_routed c ''error'' e2" "severity_routed c ''warning'' w2"
    by blast
  have "s' = extend s (e1 @ e2) (w1 @ w2)" using 1 2 by simp
  with 1 2 show ?case by (intro exI [of _ "e1 @ e2"] exI [of _ "w1 @ w2"]) simp
qed

lemma check_array_responses_routed:
  assumes "check_array_responses jsSpec c pathKey opKey op res = Inr res'"
  shows "\<exists>es ws. res' = extend res es ws \<and>
       severity_routed c ''error'' es \<and> severity_routed c ''warning'' ws"
proof (cases "toLowerCase opKey = ''get''")
  case False
  with assms have "res' = res" by (simp add: check_array_responses_def)
  then show ?thesis using routed_nil by simp
next
  case True
  with assms obtain s where s: "getp c ''no_array_responses'' = Inr s"
    and r: "(if s \<noteq> JStr ''off'' then
               bindE (getp op ''responses'') (\<lambda>responses.
                 foldE (check_response jsSpec s pathKey opKey) (entries responses) res)
             else Inr res) = Inr res'"
    by (auto simp: check_array_responses_def bindE_eq_Inr)
  show ?thesis
  proof (cases "s = JStr ''off''")
    case True
    with r have "res' = res" by simp
    then show ?thesis using routed_nil by simp
  next
    case False
    with r obtain responses where
      f: "foldE (check_response jsSpec s pathKey opKey) (entries responses) res = Inr res'"
      by (auto simp: bindE_eq_Inr)
    show ?thesis
      by (rule foldE_routed [OF _ f]) (rule check_response_routed [OF _ False s])
  qed
qed

lemma check_param_routed:
  assumes "check_param jsSpec s pathKey opKey ps i (fo, res) = Inr (fo', res')"
    and "s \<noteq> JStr ''off''" and "getp c ''parameter_order'' = Inr s"
  shows "\<exists>es ws. res' = extend res es ws \<and>
       severity_routed c ''error'' es \<and> severity_routed c ''warning'' ws"
  using assms(1) unfolding check_param_def message_of_simps(7) [symmetric]
  by (auto simp: bindE_eq_Inr routed_nil split: if_splits
           elim!: push_routed [OF _ assms(2,3)])

lemma param_loop_routed:
  assumes "s \<noteq> JStr ''off''" and "getp c ''parameter_order'' = Inr s"
  shows "foldE (check_param jsSpec s pathKey opKey ps) xs (fo, res) = Inr (fo', res') \<Longrightarrow>
     \<exists>es ws. res' = extend res es ws \<and>
       severity_routed c ''error'' es \<and> severity_routed c ''warning'' ws"
proof (induction xs arbitrary: fo res)
  case Nil
  then show ?case by (simp add: routed_nil)
next
  case (Cons x xs)
  from Cons.prems obtain fo1 r1 where t: "check_param jsSpec s pathKey opKey ps x (fo, res) = Inr (fo1, r1)"
      and rest: "foldE (check_param jsSpec s pathKey opKey ps) xs (fo1, r1) = Inr (fo', res')"
    by (auto simp: bindE_eq_Inr)
  from check_param_routed [OF t assms] obtain e1 w1 where
    1: "r1 = extend res e1 w1" "severity_routed c ''error'' e1" "severity_routed c ''warning'' w1"
    by blast
  from Cons.IH [OF rest] obtain e2 w2 where
    2: "res' = extend r1 e2 w2" "severity_routed c ''error'' e2" "severity_routed c ''warning'' w2"
    by blast
  have "res' = extend res (e1 @ e2) (w1 @ w2)" using 1 2 by simp
  with 1 2 show ?case by (intro exI [of _ "e1 @ e2"] exI [of _ "w1 @ w2"]) simp
qed

lemma check_parameter_order_routed:
  assumes "check_parameter_order jsSpec c pathKey opKey op res = Inr res'"
  shows "\<exists>es ws. res' = extend res es ws \<and>
       severity_routed c ''error'' es \<and> severity_routed c ''warning'' ws"
proof -
  from assms obtain s where s: "getp c ''parameter_order'' = Inr s"
    by (auto simp: check_parameter_order_def bindE_eq_Inr)
  show ?thesis
  proof (cases "s = JStr ''off''")
    case True
    with assms s have "res' = res" by (simp add: check_parameter_order_def)
    then show ?thesis using routed_nil by simp
  next
    case False
    show ?thesis
      using assms s False unfolding check_parameter_order_def
      by (auto simp: bindE_eq_Inr routed_nil split: if_splits
               dest: param_loop_routed [OF False s])
  qed
qed

lemma routed_trans:
  assumes "\<exists>es ws. r = extend res es ws \<and> severity_routed c ''error'' es \<and> severity_routed c ''warning'' ws"
    and "\<exists>es ws. r' = extend r es ws \<and> severity_routed c ''error'' es \<and> severity_routed c ''warning'' ws"
  shows "\<exists>es ws. r' = extend res es ws \<and> severity_routed c ''error'' es \<and> severity_routed c ''warning'' ws"
proof -
  from assms(1) obtain e1 w1 where
    1: "r = extend res e1 w1" "severity_routed c ''error'' e1" "severity_routed c ''warning'' w1"
    by blast
  from assms(2) obtain e2 w2 where
    2: "r' = extend r e2 w2" "severity_routed c ''error'' e2" "severity_routed c ''warning'' w2"
    by blast
  have "r' = extend res (e1 @ e2) (w1 @ w2)" using 1 2 by simp
  with 1 2 show ?thesis by (intro exI [of _ "e1 @ e2"] exI [of _ "w1 @ w2"]) simp
qed

lemma visit_op_routed:
  assumes "visit_op jsSpec c pathKey entry res = Inr res'"
  shows "\<exists>es ws. res' = extend res es ws \<and>
       severity_routed c ''error'' es \<and> severity_routed c ''warning'' ws"
proof -
  obtain opKey op where e: "entry = (opKey, op)" by (cases entry)
  from visit_op_steps [OF assms [unfolded e]] show ?thesis
  proof
    assume "getp op ''x-sdk-exclude'' = Inr (JBool True) \<and> res' = res"
    then show ?thesis using routed_nil by simp
  next
    assume "getp op ''x-sdk-exclude'' \<noteq> Inr (JBool True) \<and>
          (\<exists>r1 r2 r3 r4 r5 r6.
             check_consumes jsSpec c pathKey opKey op res = Inr r1 \<and>
             check_produces jsSpec c pathKey opKey op r1 = Inr r2 \<and>
             check_get_consumes c pathKey opKey op r2 = Inr r3 \<and>
             check_array_responses jsSpec c pathKey opKey op r3 = Inr r4 \<and>
             check_operation_id c pathKey opKey op r4 = Inr r5 \<and>
             check_summary c pathKey opKey op r5 = Inr r6 \<and>
             check_parameter_order jsSpec c pathKey opKey op r6 = Inr res')"
    then obtain r1 r2 r3 r4 r5 r6 where st:
      "check_consumes jsSpec c pathKey opKey op res = Inr r1"
      "check_produces jsSpec c pathKey opKey op r1 = Inr r2"
      "check_get_consumes c pathKey opKey op r2 = Inr r3"
      "check_array_responses jsSpec c pathKey opKey op r3 = Inr r4"
      "check_operation_id c pathKey opKey op r4 = Inr r5"
      "check_summary c pathKey opKey op r5 = Inr r6"
      "check_parameter_order jsSpec c pathKey opKey op r6 = Inr res'"
      by blast
    note a = routed_trans [OF check_consumes_routed [OF st(1)] check_produces_routed [OF st(2)]]
    note b = routed_trans [OF a check_get_consumes_routed [OF st(3)]]
    note d = routed_trans [OF b check_array_responses_routed [OF st(4)]]
    note e = routed_trans [OF d check_operation_id_routed [OF st(5)]]
    note f = routed_trans [OF e check_summary_routed [OF st(6)]]
    show ?thesis
      by (rule routed_trans [OF f check_parameter_order_routed [OF st(7)]])
  qed
qed

lemma visit_path_routed:
  assumes "visit_path jsSpec c entry res = Inr res'"
  shows "\<exists>es ws. res' = extend res es ws \<and>
       severity_routed c ''error'' es \<and> severity_routed c ''warning'' ws"
proof -
  obtain pathItem pathKey where e: "entry = (pathItem, pathKey)" by (cases entry)
  from assms e obtain k where k: "pathKey = JStr k"
    by (cases pathKey) (auto simp: visit_path_def)
  show ?thesis
  proof (cases "take 2 k = ''x-''")
    case True
    with assms e k have "res' = res" by (simp add: visit_path_def)
    then show ?thesis using routed_nil by simp
  next
    case False
    with assms e k have f: "foldE (visit_op jsSpec c k) (pick pathItem methods) res = Inr res'"
      by (simp add: visit_path_def)
    show ?thesis
      by (rule foldE_routed [OF _ f]) (rule visit_op_routed)
  qed
qed

lemma validate_routed:
  assumes "validate arg config = Inr r" and "getp config ''operations'' = Inr c"
  shows "severity_routed c ''error'' (errors r) \<and> severity_routed c ''warning'' (warnings r)"
proof -
  from assms obtain jsSpec paths res where
    f: "foldE (visit_path jsSpec c) (entries paths) \<lparr>error = [], warning = []\<rparr> = Inr res"
    and r: "r = \<lparr>errors = error res, warnings = warning res\<rparr>"
    by (auto simp: validate_def bindE_eq_Inr)
  have "\<exists>es ws. res = extend \<lparr>error = [], warning = []\<rparr> es ws \<and>
       severity_routed c ''error'' es \<and> severity_routed c ''warning'' ws"
    by (rule foldE_routed [OF _ f]) (rule visit_path_routed)
  with r show ?thesis by (auto simp: extend_def)
qed

lemma routed_grows:
  assumes "\<exists>es ws. res' = extend res es ws \<and> severity_routed c ''error'' es \<and> severity_routed c ''warning'' ws"
  shows "set (error res) \<subseteq> set (error res') \<and> set (warning res) \<subseteq> set (warning res')"
  using assms by auto

lemma foldE_reaches:
  assumes grow: "\<And>x s s'. f x s = Inr s' \<Longrightarrow>
      set (error s) \<subseteq> set (error s') \<and> set (warning s) \<subseteq> set (warning s')"
    and "x \<in> set xs" and "foldE f xs s = Inr s'"
  shows "\<exists>t t'. f x t = Inr t' \<and> set (error t') \<subseteq> set (error s') \<and> set (warning t') \<subseteq> set (warning s')"
  using assms(2,3)
proof (induction xs arbitrary: s)
  case Nil
  then show ?case by simp
next
  case (Cons y ys)
  from Cons.prems(2) obtain t where t: "f y s = Inr t" and rest: "foldE f ys t = Inr s'"
    by (auto simp: bindE_eq_Inr)
  have g: "set (error t) \<subseteq> set (error s') \<and> set (warning t) \<subseteq> set (warning s')"
    using rest
  proof (induction ys arbitrary: t)
    case Nil
    then show ?case by simp
  next
    case (Cons z zs)
    from Cons.prems obtain u where u: "f z t = Inr u" and r: "foldE f zs u = Inr s'"
      by (auto simp: bindE_eq_Inr)
    from grow [OF u] Cons.IH [OF r] show ?case by blast
  qed
  show ?case
  proof (cases "x = y")
    case True
    with t g show ?thesis by blast
  next
    case False
    with Cons.prems(1) have "x \<in> set ys" by simp
    from Cons.IH [OF this rest] show ?thesis .
  qed
qed

lemma visit_op_grows:
  "visit_op jsSpec c pathKey entry res = Inr res' \<Longrightarrow>
     set (error res) \<subseteq> set (error res') \<and> set (warning res) \<subseteq> set (warning res')"
  by (rule routed_grows [OF visit_op_routed])

lemma visit_path_grows:
  "visit_path jsSpec c entry res = Inr res' \<Longrightarrow>
     set (error res) \<subseteq> set (error res') \<and> set (warning res) \<subseteq> set (warning res')"
  by (rule routed_grows [OF visit_path_routed])

lemma validate_reaches:
  assumes v: "validate arg config = Inr r" and j: "getp arg ''jsSpec'' = Inr jsSpec"
    and c: "getp config ''operations'' = Inr c"
    and m: "(pathKey, opKey, op) \<in> set (visited_operations jsSpec)"
  shows "opKey \<in> set methods \<and> getp op ''x-sdk-exclude'' \<noteq> Inr (JBool True) \<and>
         (\<exists>t t'. visit_op jsSpec c pathKey (opKey, op) t = Inr t' \<and>
            set (error t') \<subseteq> set (errors r) \<and> set (warning t') \<subseteq> set (warnings r))"
proof -
  from v j c obtain paths res where p: "getp jsSpec ''paths'' = Inr paths"
    and f: "foldE (visit_path jsSpec c) (entries paths) \<lparr>error = [], warning = []\<rparr> = Inr res"
    and r: "r = \<lparr>errors = error res, warnings = warning res\<rparr>"
    by (auto simp: validate_def bindE_eq_Inr)
  from m p obtain pathItem where e: "(pathItem, JStr pathKey) \<in> set (entries paths)"
    and x: "take 2 pathKey \<noteq> ''x-''"
    and o: "(opKey, op) \<in> set (pick pathItem methods)"
    and n: "getp op ''x-sdk-exclude'' \<noteq> Inr (JBool True)"
    by (auto simp: visited_operations_def split: js.splits if_splits)
  have "\<exists>t t'. visit_path jsSpec c (pathItem, JStr pathKey) t = Inr t' \<and>
      set (error t') \<subseteq> set (error res) \<and> set (warning t') \<subseteq> set (warning res)"
    by (rule foldE_reaches [OF _ e f]) (rule visit_path_grows)
  then obtain t t' where
    t: "visit_path jsSpec c (pathItem, JStr pathKey) t = Inr t'"
    and g: "set (error t') \<subseteq> set (error res)" "set (warning t') \<subseteq> set (warning res)"
    by blast
  from t x have f2: "foldE (visit_op jsSpec c pathKey) (pick pathItem methods) t = Inr t'"
    by (simp add: visit_path_def)
  have "\<exists>u u'. visit_op jsSpec c pathKey (opKey, op) u = Inr u' \<and>
      set (error u') \<subseteq> set (error t') \<and> set (warning u') \<subseteq> set (warning t')"
    by (rule foldE_reaches [OF _ o f2]) (rule visit_op_grows)
  then obtain u u' where
    u: "visit_op jsSpec c pathKey (opKey, op) u = Inr u'"
    and h: "set (error u') \<subseteq> set (error t')" "set (warning u') \<subseteq> set (warning t')"
    by blast
  have k: "opKey \<in> set methods"
    using o by (cases pathItem) (auto simp: pick_def List.map_filter_def)
  have e1: "set (error u') \<subseteq> set (errors r)" using g(1) h(1) r by simp
  have w1: "set (warning u') \<subseteq> set (warnings r)" using g(2) h(2) r by simp
  from u e1 w1 have "\<exists>t t'. visit_op jsSpec c pathKey (opKey, op) t = Inr t' \<and>
            set (error t') \<subseteq> set (errors r) \<and> set (warning t') \<subseteq> set (warnings r)"
    by blast
  with k n show ?thesis by simp
qed

lemma foldE_Nil_eta: "foldE f [] = Inr"
  by (rule ext) simp

lemma bindE_Inr_right: "bindE m Inr = m"
  by (cases m) simp_all

lemma push_routes:
  assumes "push s f res = Inr res'"
  shows "(routes s ''error'' \<longrightarrow> f \<in> set (error res')) \<and>
         (routes s ''warning'' \<longrightarrow> f \<in> set (warning res'))"
  using push_Inr [OF assms] by (auto simp: routes_def)

lemma report_routes:
  assumes "report s p m res = Inr res'"
  shows "(routes s ''error'' \<longrightarrow> \<lparr>path = p, message = m\<rparr> \<in> set (error res')) \<and>
         (routes s ''warning'' \<longrightarrow> \<lparr>path = p, message = m\<rparr> \<in> set (warning res'))"
  using report_Inr [OF assms] by auto

lemma has_entries_undefined [simp]: "has_entries JUndefined = Inr False"
  by (simp add: has_entries_def)

lemma has_text_undefined [simp]: "has_text JUndefined = Inr False"
  by (simp add: has_text_def)

lemma check_consumes_plain:
  assumes "check_consumes jsSpec c pathKey opKey op res = Inr res'"
    and "opKey \<in> set [''put'', ''post'']" and "getp op ''consumes'' = Inr JUndefined"
    and "getp jsSpec ''consumes'' = Inr JUndefined"
    and "getp c ''no_consumes_for_put_or_post'' = Inr s"
  shows "(routes s ''error'' \<longrightarrow>
            \<lparr>path = op_path pathKey opKey ''consumes'', message = msg_consumes\<rparr> \<in> set (error res')) \<and>
         (routes s ''warning'' \<longrightarrow>
            \<lparr>path = op_path pathKey opKey ''consumes'', message = msg_consumes\<rparr> \<in> set (warning res'))"
proof -
  from assms(2) have l: "toLowerCase opKey \<in> set [''put'', ''post'']" by auto
  from assms(1) l assms(3-5) have
    "report s (op_path pathKey opKey ''consumes'') msg_consumes res = Inr res'"
    by (simp add: check_consumes_def)
  from report_routes [OF this] show ?thesis .
qed

lemma check_produces_plain:
  assumes "check_produces jsSpec c pathKey opKey op res = Inr res'"
    and "opKey \<in> set methods" and "opKey \<noteq> ''head''" and "getp op ''produces'' = Inr JUndefined"
    and "getp jsSpec ''produces'' = Inr JUndefined"
    and "getp c ''no_produces'' = Inr s"
  shows "(routes s ''error'' \<longrightarrow>
            \<lparr>path = op_path pathKey opKey ''produces'', message = msg_produces\<rparr> \<in> set (error res')) \<and>
         (routes s ''warning'' \<longrightarrow>
            \<lparr>path = op_path pathKey opKey ''produces'', message = msg_produces\<rparr> \<in> set (warning res'))"
proof -
  from assms(2,3) have l: "toLowerCase opKey \<noteq> ''head''"
    by (simp add: toLowerCase_method)
  from assms(1) l assms(4-6) have
    "report s (op_path pathKey opKey ''produces'') msg_produces res = Inr res'"
    by (simp add: check_produces_def)
  from report_routes [OF this] show ?thesis .
qed

lemma check_get_consumes_plain:
  assumes "check_get_consumes c pathKey opKey op res = Inr res'"
    and "opKey = ''get''" and "getp op ''consumes'' = Inr (JArr [])"
    and "getp c ''get_op_has_consumes'' = Inr s"
  shows "(routes s ''error'' \<longrightarrow>
            \<lparr>path = op_path pathKey opKey ''consumes'', message = msg_get_consumes\<rparr> \<in> set (error res')) \<and>
         (routes s ''warning'' \<longrightarrow>
            \<lparr>path = op_path pathKey opKey ''consumes'', message = msg_get_consumes\<rparr> \<in> set (warning res'))"
proof -
  from assms have
    "report s (op_path pathKey opKey ''consumes'') msg_get_consumes res = Inr res'"
    by (simp add: check_get_consumes_def)
  from report_routes [OF this] show ?thesis .
qed

lemma check_operation_id_plain:
  assumes "check_operation_id c pathKey opKey op res = Inr res'"
    and "getp op ''operationId'' = Inr JUndefined"
    and "getp c ''no_operation_id'' = Inr s"
  shows "(routes s ''error'' \<longrightarrow>
            \<lparr>path = op_path pathKey opKey ''operationId'', message = msg_operation_id\<rparr> \<in> set (error res')) \<and>
         (routes s ''warning'' \<longrightarrow>
            \<lparr>path = op_path pathKey opKey ''operationId'', message = msg_operation_id\<rparr> \<in> set (warning res'))"
proof -
  from assms have
    "report s (op_path pathKey opKey ''operationId'') msg_operation_id res = Inr res'"
    by (simp add: check_operation_id_def)
  from report_routes [OF this] show ?thesis .
qed

lemma check_summary_plain:
  assumes "check_summary c pathKey opKey op res = Inr res'"
    and "getp op ''summary'' = Inr JUndefined"
    and "getp c ''no_summary'' = Inr s"
  shows "(routes s ''error'' \<longrightarrow>
            \<lparr>path = op_path pathKey opKey ''summary'', message = msg_summary\<rparr> \<in> set (error res')) \<and>
         (routes s ''warning'' \<longrightarrow>
            \<lparr>path = op_path pathKey opKey ''summary'', message = msg_summary\<rparr> \<in> set (warning res'))"
proof -
  from assms have
    "report s (op_path pathKey opKey ''summary'') msg_summary res = Inr res'"
    by (simp add: check_summary_def)
  from report_routes [OF this] show ?thesis .
qed

lemma resolveRef_plain:
  "getp obj ''$ref'' = Inr JUndefined \<Longrightarrow> resolveRef obj jsSpec = Inr obj"
  by (simp add: resolveRef_def)

lemma check_array_responses_plain:
  assumes "check_array_responses jsSpec c pathKey opKey op res = Inr res'"
    and "opKey = ''get''"
    and "getp op ''responses'' =
           Inr (JObj [(''200'', JObj [(''schema'', JObj [(''type'', JStr ''array'')])])])"
    and "getp c ''no_array_responses'' = Inr s"
  shows "(routes s ''error'' \<longrightarrow>
            \<lparr>path = op_path pathKey opKey ''responses.200.schema'', message = msg_array_response\<rparr>
              \<in> set (error res')) \<and>
         (routes s ''warning'' \<longrightarrow>
            \<lparr>path = op_path pathKey opKey ''responses.200.schema'', message = msg_array_response\<rparr>
              \<in> set (warning res'))"
proof (cases "s = JStr ''off''")
  case True
  then show ?thesis by (simp add: routes_def)
next
  case False
  have e: "entries (JObj [(''200'', JObj [(''schema'', JObj [(''type'', JStr ''array'')])])]) =
      [(JObj [(''schema'', JObj [(''type'', JStr ''array'')])], JStr ''200'')]"
    by (simp add: entries_def array_like_length_def)
  have r: "resolveRef (JObj [(''type'', JStr ''array'')]) jsSpec = Inr (JObj [(''type'', JStr ''array'')])"
    by (rule resolveRef_plain) simp
  from assms False have
    "push s \<lparr>path = op_path pathKey opKey ''responses.200.schema'', message = msg_array_response\<rparr> res =
       Inr res'"
    by (simp add: check_array_responses_def e check_response_def r foldE_Nil_eta bindE_Inr_right)
  from push_routes [OF this] show ?thesis .
qed

lemma check_parameter_order_plain:
  assumes "check_parameter_order jsSpec c pathKey opKey op res = Inr res'"
    and "getp op ''parameters'' = Inr (JArr [JObj [], JObj [(''required'', JBool True)]])"
    and "getp c ''parameter_order'' = Inr s"
  shows "(routes s ''error'' \<longrightarrow>
            \<lparr>path = op_path pathKey opKey ''parameters[1]'', message = msg_parameter_order\<rparr>
              \<in> set (error res')) \<and>
         (routes s ''warning'' \<longrightarrow>
            \<lparr>path = op_path pathKey opKey ''parameters[1]'', message = msg_parameter_order\<rparr>
              \<in> set (warning res'))"
proof (cases "s = JStr ''off''")
  case True
  then show ?thesis by (simp add: routes_def)
next
  case False
  have u: "[0..<2] = [0, Suc 0]"
    by (simp add: upt_rec)
  have r1: "resolveRef (JObj []) jsSpec = Inr (JObj [])"
    by (rule resolveRef_plain) simp
  have r2: "resolveRef (JObj [(''required'', JBool True)]) jsSpec = Inr (JObj [(''required'', JBool True)])"
    by (rule resolveRef_plain) simp
  have n: "show_nat (Suc 0) = ''1''"
    by (simp add: show_nat.simps digit_chr_def)
  from assms False have
    "bindE (push s \<lparr>path = op_path pathKey opKey ''parameters[1]'', message = msg_parameter_order\<rparr> res)
       (\<lambda>res'. Inr (0::int, res')) = Inr (0, res') \<or>
     push s \<lparr>path = op_path pathKey opKey ''parameters[1]'', message = msg_parameter_order\<rparr> res = Inr res'"
    by (auto simp: check_parameter_order_def gt_zero_def loop_count_def u check_param_def r1 r2 n
          op_path_def bindE_eq_Inr)
  then have "push s \<lparr>path = op_path pathKey opKey ''parameters[1]'', message = msg_parameter_order\<rparr> res =
       Inr res'"
    by (auto simp: bindE_eq_Inr)
  from push_routes [OF this] show ?thesis .
qed

lemma visit_op_plain_violation:
  assumes v: "visit_op jsSpec c pathKey (opKey, op) res = Inr res'"
    and m: "opKey \<in> set methods" and x: "getp op ''x-sdk-exclude'' \<noteq> Inr (JBool True)"
    and p: "plain_violation k jsSpec opKey op = Some member" and s: "getp c k = Inr s"
  shows "(routes s ''error'' \<longrightarrow>
            \<lparr>path = op_path pathKey opKey member, message = message_of k\<rparr> \<in> set (error res')) \<and>
         (routes s ''warning'' \<longrightarrow>
            \<lparr>path = op_path pathKey opKey member, message = message_of k\<rparr> \<in> set (warning res'))"
proof -
  from visit_op_steps [OF v] x obtain r1 r2 r3 r4 r5 r6 where st:
      "check_consumes jsSpec c pathKey opKey op res = Inr r1"
      "check_produces jsSpec c pathKey opKey op r1 = Inr r2"
      "check_get_consumes c pathKey opKey op r2 = Inr r3"
      "check_array_responses jsSpec c pathKey opKey op r3 = Inr r4"
      "check_operation_id c pathKey opKey op r4 = Inr r5"
      "check_summary c pathKey opKey op r5 = Inr r6"
      "check_parameter_order jsSpec c pathKey opKey op r6 = Inr res'"
    by blast
  note g2 = routed_grows [OF check_produces_routed [OF st(2)]]
  note g3 = routed_grows [OF check_get_consumes_routed [OF st(3)]]
  note g4 = routed_grows [OF check_array_responses_routed [OF st(4)]]
  note g5 = routed_grows [OF check_operation_id_routed [OF st(5)]]
  note g6 = routed_grows [OF check_summary_routed [OF st(6)]]
  note g7 = routed_grows [OF check_parameter_order_routed [OF st(7)]]
  from p consider
      (consumes) "k = ''no_consumes_for_put_or_post''" "opKey \<in> set [''put'', ''post'']"
        "getp op ''consumes'' = Inr JUndefined" "getp jsSpec ''consumes'' = Inr JUndefined"
        "member = ''consumes''"
    | (produces) "k = ''no_produces''" "opKey \<noteq> ''head''"
        "getp op ''produces'' = Inr JUndefined" "getp jsSpec ''produces'' = Inr JUndefined"
        "member = ''produces''"
    | (get_consumes) "k = ''get_op_has_consumes''" "opKey = ''get''"
        "getp op ''consumes'' = Inr (JArr [])" "member = ''consumes''"
    | (responses) "k = ''no_array_responses''" "opKey = ''get''"
        "getp op ''responses'' =
           Inr (JObj [(''200'', JObj [(''schema'', JObj [(''type'', JStr ''array'')])])])"
        "member = ''responses.200.schema''"
    | (operation_id) "k = ''no_operation_id''" "getp op ''operationId'' = Inr JUndefined"
        "member = ''operationId''"
    | (summary) "k = ''no_summary''" "getp op ''summary'' = Inr JUndefined" "member = ''summary''"
    | (parameters) "k = ''parameter_order''"
        "getp op ''parameters'' = Inr (JArr [JObj [], JObj [(''required'', JBool True)]])"
        "member = ''parameters[1]''"
    unfolding plain_violation_def by (auto split: if_splits)
  then show ?thesis
  proof cases
    case consumes
    from check_consumes_plain [OF st(1) consumes(2,3,4) s [unfolded consumes(1)]]
    show ?thesis
      unfolding consumes(1,5) message_of_simps using g2 g3 g4 g5 g6 g7 by blast
  next
    case produces
    from check_produces_plain [OF st(2) m produces(2,3,4) s [unfolded produces(1)]]
    show ?thesis
      unfolding produces(1,5) message_of_simps using g3 g4 g5 g6 g7 by blast
  next
    case get_consumes
    from check_get_consumes_plain [OF st(3) get_consumes(2,3) s [unfolded get_consumes(1)]]
    show ?thesis
      unfolding get_consumes(1,4) message_of_simps using g4 g5 g6 g7 by blast
  next
    case responses
    from check_array_responses_plain [OF st(4) responses(2,3) s [unfolded responses(1)]]
    show ?thesis
      unfolding responses(1,4) message_of_simps using g5 g6 g7 by blast
  next
    case operation_id
    from check_operation_id_plain [OF st(5) operation_id(2) s [unfolded operation_id(1)]]
    show ?thesis
      unfolding operation_id(1,3) message_of_simps using g6 g7 by blast
  next
    case summary
    from check_summary_plain [OF st(6) summary(2) s [unfolded summary(1)]]
    show ?thesis
      unfolding summary(1,3) message_of_simps using g7 by blast
  next
    case parameters
    from check_parameter_order_plain [OF st(7) parameters(2) s [unfolded parameters(1)]]
    show ?thesis
      unfolding parameters(1,3) message_of_simps by blast
  qed
qed

lemma validate_plain_violation:
  assumes v: "validate arg config = Inr r" and j: "getp arg ''jsSpec'' = Inr jsSpec"
    and c: "getp config ''operations'' = Inr c"
    and m: "(pathKey, opKey, op) \<in> set (visited_operations jsSpec)"
    and p: "plain_violation k jsSpec opKey op = Some member" and s: "getp c k = Inr s"
  shows "(routes s ''error'' \<longrightarrow>
            \<lparr>path = op_path pathKey opKey member, message = message_of k\<rparr> \<in> set (errors r)) \<and>
         (routes s ''warning'' \<longrightarrow>
            \<lparr>path = op_path pathKey opKey member, message = message_of k\<rparr> \<in> set (warnings r))"
proof -
  from validate_reaches [OF v j c m] obtain t t' where
    k: "opKey \<in> set methods" and x: "getp op ''x-sdk-exclude'' \<noteq> Inr (JBool True)"
    and t: "visit_op jsSpec c pathKey (opKey, op) t = Inr t'"
    and g: "set (error t') \<subseteq> set (errors r)" "set (warning t') \<subseteq> set (warnings r)"
    by blast
  from visit_op_plain_violation [OF t k x p s] g show ?thesis
    by blast
qed

section \<open>The claims\<close>

text \<open>
  Claim C1: an operation with a parameter or a response schema whose reference starts
  with \<^verbatim>\<open>#/\<close> and resolves to nothing is skipped for that item, without a finding and
  without a failure. The check of the response schemas does skip it
  (\<open>unresolved_schema_is_skipped\<close>); the check of the parameter order does not
  (\<open>unresolved_parameter_throws\<close>). The document here has one GET operation whose only
  parameter is \<^verbatim>\<open>{$ref: "#/parameters/limit"}\<close> and has no \<^verbatim>\<open>parameters\<close> section: the
  reference resolves to \<^verbatim>\<open>undefined\<close>, and the call throws a TypeError.
\<close>

theorem unresolved_parameter_reference_throws:
  "resolveRef (JObj [(''$ref'', JStr ''#/parameters/limit'')])
     (one_operation ''/pets'' ''get''
        (JObj [(''parameters'', JArr [JObj [(''$ref'', JStr ''#/parameters/limit'')]])])) =
     Inr JUndefined \<and>
   validate
     (JObj [(''jsSpec'', one_operation ''/pets'' ''get''
        (JObj [(''parameters'', JArr [JObj [(''$ref'', JStr ''#/parameters/limit'')]])]))])
     (config_of (only_rule ''parameter_order'' (JStr ''warning''))) = Inl TypeError"
  by code_simp

text \<open>
  Claim C2, as amended: the checks of one visited operation run in the order of the
  source, which is R1 (consumes required), R3 (produces required), R2 (consumes
  forbidden), R6 (array responses), R4 (operationId), R5 (summary), R7 (parameter
  order); the findings that one operation adds to a bucket appear in that order.
\<close>

theorem findings_in_source_order:
  assumes "visit_op jsSpec config pathKey (opKey, op) res = Inr res'"
  shows "\<exists>es ws. res' = extend res es ws \<and>
           sorted (map (\<lambda>f. source_position (message f)) es) \<and>
           sorted (map (\<lambda>f. source_position (message f)) ws)"
proof -
  from visit_op_steps [OF assms] consider
    (excluded) "res' = res"
  | (visited) r1 r2 r3 r4 r5 r6 where
      "check_consumes jsSpec config pathKey opKey op res = Inr r1"
      "check_produces jsSpec config pathKey opKey op r1 = Inr r2"
      "check_get_consumes config pathKey opKey op r2 = Inr r3"
      "check_array_responses jsSpec config pathKey opKey op r3 = Inr r4"
      "check_operation_id config pathKey opKey op r4 = Inr r5"
      "check_summary config pathKey opKey op r5 = Inr r6"
      "check_parameter_order jsSpec config pathKey opKey op r6 = Inr res'"
    by blast
  then show ?thesis
  proof cases
    case excluded
    have "res' = extend res [] []" using excluded by simp
    then show ?thesis by (intro exI [of _ "[]"]) simp
  next
    case visited
    have 0: "\<exists>es ws. res = extend res es ws \<and> in_order_upto 0 es \<and> in_order_upto 0 ws"
      by (intro exI [of _ "[]"]) simp
    note 1 = step_in_order [OF 0 check_consumes_emits [OF visited(1)]]
    note 2 = step_in_order [OF 1 check_produces_emits [OF visited(2)]]
    note 3 = step_in_order [OF 2 check_get_consumes_emits [OF visited(3)]]
    note 4 = step_in_order [OF 3 check_array_responses_emits [OF visited(4)]]
    note 5 = step_in_order [OF 4 check_operation_id_emits [OF visited(5)]]
    note 6 = step_in_order [OF 5 check_summary_emits [OF visited(6)]]
    note 7 = step_in_order [OF 6 check_parameter_order_emits [OF visited(7)]]
    have "\<exists>es ws. res' = extend res es ws \<and>
           in_order_upto (source_position msg_parameter_order) es \<and>
           in_order_upto (source_position msg_parameter_order) ws"
      by (rule 7) (simp_all add: source_position_simps)
    then show ?thesis by (auto simp: in_order_upto_def)
  qed
qed

theorem findings_in_source_order_witness:
  "visit_op (JObj []) (rules_at (JStr ''error'')) ''/pets'' (''get'', JObj [(''consumes'', JArr [])])
     empty_result =
     Inr \<lparr>error = [\<lparr>path = ''paths./pets.get.produces'', message = msg_produces\<rparr>,
                    \<lparr>path = ''paths./pets.get.consumes'', message = msg_get_consumes\<rparr>,
                    \<lparr>path = ''paths./pets.get.operationId'', message = msg_operation_id\<rparr>,
                    \<lparr>path = ''paths./pets.get.summary'', message = msg_summary\<rparr>],
          warning = []\<rparr> \<and>
   (\<exists>es ws.
      \<lparr>error = [\<lparr>path = ''paths./pets.get.produces'', message = msg_produces\<rparr>,
                \<lparr>path = ''paths./pets.get.consumes'', message = msg_get_consumes\<rparr>,
                \<lparr>path = ''paths./pets.get.operationId'', message = msg_operation_id\<rparr>,
                \<lparr>path = ''paths./pets.get.summary'', message = msg_summary\<rparr>],
       warning = []\<rparr> = extend empty_result es ws \<and>
      sorted (map (\<lambda>f. source_position (message f)) es) \<and>
      sorted (map (\<lambda>f. source_position (message f)) ws))"
proof -
  have h: "visit_op (JObj []) (rules_at (JStr ''error'')) ''/pets''
      (''get'', JObj [(''consumes'', JArr [])]) empty_result =
     Inr \<lparr>error = [\<lparr>path = ''paths./pets.get.produces'', message = msg_produces\<rparr>,
                    \<lparr>path = ''paths./pets.get.consumes'', message = msg_get_consumes\<rparr>,
                    \<lparr>path = ''paths./pets.get.operationId'', message = msg_operation_id\<rparr>,
                    \<lparr>path = ''paths./pets.get.summary'', message = msg_summary\<rparr>],
          warning = []\<rparr>"
    by code_simp
  from findings_in_source_order [OF h] h show ?thesis by simp
qed

text \<open>
  Claim C2 as stated (the order R1, R2, R3, ...) fails on a GET operation that declares
  \<^verbatim>\<open>consumes: []\<close> and no \<^verbatim>\<open>produces\<close>, every rule being an error: the finding of R3
  comes before the finding of R2.
\<close>

theorem spec_order_counterexample:
  "validate (JObj [(''jsSpec'', one_operation ''/pets'' ''get'' (JObj [(''consumes'', JArr [])]))])
     (config_of (rules_at (JStr ''error''))) =
     Inr \<lparr>errors = [\<lparr>path = ''paths./pets.get.produces'', message = msg_produces\<rparr>,
                     \<lparr>path = ''paths./pets.get.consumes'', message = msg_get_consumes\<rparr>,
                     \<lparr>path = ''paths./pets.get.operationId'', message = msg_operation_id\<rparr>,
                     \<lparr>path = ''paths./pets.get.summary'', message = msg_summary\<rparr>],
          warnings = []\<rparr> \<and>
   map rule_number [msg_produces, msg_get_consumes, msg_operation_id, msg_summary] = [3, 2, 4, 5]"
  by code_simp

text \<open>
  Claim C3, as amended: for an operation whose \<^verbatim>\<open>parameters\<close> is an array, rule R7 takes
  \<open>firstOptional\<close> to be the index of the first parameter whose resolved \<^verbatim>\<open>required\<close> is
  falsy, and adds one finding for each later parameter whose resolved \<^verbatim>\<open>required\<close> is
  truthy, to the bucket of the severity of \<^verbatim>\<open>parameter_order\<close>. A later parameter with
  \<^verbatim>\<open>required: "yes"\<close> is reported; a first parameter with a truthy \<^verbatim>\<open>required\<close> that is
  not a boolean does not start the optional region.
\<close>

theorem parameter_order_findings:
  assumes v: "visit_op jsSpec config pathKey (opKey, op) res = Inr res'"
    and x: "getp op ''x-sdk-exclude'' \<noteq> Inr (JBool True)"
    and s: "getp config ''parameter_order'' = Inr s"
    and p: "getp op ''parameters'' = Inr (JArr ps)"
  shows "rule_findings msg_parameter_order (error res') =
           rule_findings msg_parameter_order (error res) @
           (if routes s ''error''
            then map (parameter_finding pathKey opKey) (violations (map (is_required jsSpec) ps))
            else []) \<and>
         rule_findings msg_parameter_order (warning res') =
           rule_findings msg_parameter_order (warning res) @
           (if routes s ''warning''
            then map (parameter_finding pathKey opKey) (violations (map (is_required jsSpec) ps))
            else [])"
proof -
  from visit_op_steps [OF v] x obtain r1 r2 r3 r4 r5 r6 where st:
      "check_consumes jsSpec config pathKey opKey op res = Inr r1"
      "check_produces jsSpec config pathKey opKey op r1 = Inr r2"
      "check_get_consumes config pathKey opKey op r2 = Inr r3"
      "check_array_responses jsSpec config pathKey opKey op r3 = Inr r4"
      "check_operation_id config pathKey opKey op r4 = Inr r5"
      "check_summary config pathKey opKey op r5 = Inr r6"
      "check_parameter_order jsSpec config pathKey opKey op r6 = Inr res'"
    by blast
  note k1 = check_consumes_keeps [OF st(1), of msg_parameter_order]
  note k2 = check_produces_keeps [OF st(2), of msg_parameter_order]
  note k3 = check_get_consumes_keeps [OF st(3), of msg_parameter_order]
  note k4 = check_array_responses_keeps [OF st(4), of msg_parameter_order]
  note k5 = check_operation_id_keeps [OF st(5), of msg_parameter_order]
  note k6 = check_summary_keeps [OF st(6), of msg_parameter_order]
  note e7 = check_parameter_order_exact [OF st(7) s p]
  have 7: "rule_findings msg_parameter_order (error res') =
           rule_findings msg_parameter_order (error r6) @
           (if routes s ''error''
            then map (parameter_finding pathKey opKey) (violations (map (is_required jsSpec) ps))
            else [])"
    by (subst e7) simp
  have w7: "rule_findings msg_parameter_order (warning res') =
           rule_findings msg_parameter_order (warning r6) @
           (if routes s ''warning''
            then map (parameter_finding pathKey opKey) (violations (map (is_required jsSpec) ps))
            else [])"
    by (subst e7) simp
  from k1 k2 k3 k4 k5 k6 7 w7 show ?thesis by simp
qed

theorem parameter_order_findings_witness:
  "visit_op (JObj []) (only_rule ''parameter_order'' (JStr ''error'')) ''/pets''
     (''post'', JObj [(''parameters'',
        JArr [JObj [(''name'', JStr ''a'')],
              JObj [(''name'', JStr ''b''), (''required'', JStr ''yes'')]])])
     empty_result =
     Inr \<lparr>error = [parameter_finding ''/pets'' ''post'' 1], warning = []\<rparr> \<and>
   rule_findings msg_parameter_order [parameter_finding ''/pets'' ''post'' 1] =
     map (parameter_finding ''/pets'' ''post'')
       (violations (map (is_required (JObj []))
          [JObj [(''name'', JStr ''a'')],
           JObj [(''name'', JStr ''b''), (''required'', JStr ''yes'')]]))"
proof -
  have h: "visit_op (JObj []) (only_rule ''parameter_order'' (JStr ''error'')) ''/pets''
     (''post'', JObj [(''parameters'',
        JArr [JObj [(''name'', JStr ''a'')],
              JObj [(''name'', JStr ''b''), (''required'', JStr ''yes'')]])])
     empty_result =
     Inr \<lparr>error = [parameter_finding ''/pets'' ''post'' 1], warning = []\<rparr>"
    by code_simp
  have x: "getp (JObj [(''parameters'',
        JArr [JObj [(''name'', JStr ''a'')],
              JObj [(''name'', JStr ''b''), (''required'', JStr ''yes'')]])]) ''x-sdk-exclude'' \<noteq>
      Inr (JBool True)"
    by simp
  have s: "getp (only_rule ''parameter_order'' (JStr ''error'')) ''parameter_order'' =
      Inr (JStr ''error'')"
    by code_simp
  have p: "getp (JObj [(''parameters'',
        JArr [JObj [(''name'', JStr ''a'')],
              JObj [(''name'', JStr ''b''), (''required'', JStr ''yes'')]])]) ''parameters'' =
      Inr (JArr [JObj [(''name'', JStr ''a'')],
              JObj [(''name'', JStr ''b''), (''required'', JStr ''yes'')]])"
    by simp
  have r: "routes (JStr ''error'') ''error''"
    by (simp add: routes_def)
  from parameter_order_findings [OF h x s p] h r show ?thesis
    by (simp add: empty_result_def)
qed

text \<open>
  Claim C3 as stated fails on the parameters \<^verbatim>\<open>[{name: "a"}, {name: "b", required: "yes"}]\<close>:
  the second parameter, whose \<^verbatim>\<open>required\<close> is truthy and not \<^verbatim>\<open>true\<close>, is reported.
\<close>

theorem truthy_required_counterexample:
  "validate
     (JObj [(''jsSpec'', one_operation ''/pets'' ''post''
        (JObj [(''parameters'',
           JArr [JObj [(''name'', JStr ''a'')],
                 JObj [(''name'', JStr ''b''), (''required'', JStr ''yes'')]])]))])
     (config_of (only_rule ''parameter_order'' (JStr ''error''))) =
     Inr \<lparr>errors = [\<lparr>path = ''paths./pets.post.parameters[1]'', message = msg_parameter_order\<rparr>],
          warnings = []\<rparr>"
  by code_simp

text \<open>
  Claim C4, as amended: for a rule whose configured severity is outside
  \<^verbatim>\<open>error\<close>, \<^verbatim>\<open>warning\<close> and \<^verbatim>\<open>off\<close> (a value that is not \<^verbatim>\<open>"off"\<close> and whose string is
  neither \<^verbatim>\<open>error\<close> nor \<^verbatim>\<open>warning\<close>, a missing value included), a call that returns
  returns the findings it returns with that rule set to \<^verbatim>\<open>off\<close>. The call does not
  always return. Compared with the call that has the rule set to \<^verbatim>\<open>error\<close>: where that
  call reports no finding of the rule, the call returns the same findings; where that call
  reports a finding of the rule, the call throws.
\<close>

theorem unroutable_severity_acts_as_off:
  assumes v: "getp (JObj ops) k = Inr v" "unroutable v"
    and c: "getp config ''operations'' = Inr (JObj ops)"
    and c_off: "getp config_off ''operations'' = Inr (JObj (set_member k (JStr ''off'') ops))"
    and c_error: "getp config_error ''operations'' = Inr (JObj (set_member k (JStr ''error'') ops))"
  shows "(\<forall>r. validate arg config = Inr r \<longrightarrow> validate arg config_off = Inr r) \<and>
         (\<forall>r. validate arg config_error = Inr r \<longrightarrow>
            (if rule_findings (message_of k) (errors r) = [] then validate arg config = Inr r
             else (\<exists>e. validate arg config = Inl e)))"
proof (intro conjI allI impI)
  fix r
  assume r: "validate arg config = Inr r"
  have a: "off_instead k (JObj ops) (JObj (set_member k (JStr ''off'') ops))"
    unfolding off_instead_def using v by (auto simp: getp_set_member simp del: getp.simps)
  from r obtain jsSpec paths u res where
    1: "getp arg ''jsSpec'' = Inr jsSpec" and 2: "getp jsSpec ''paths'' = Inr paths"
    and 3: "map_result_array paths = Inr u"
    and 4: "foldE (visit_path jsSpec (JObj ops)) (entries paths) \<lparr>error = [], warning = []\<rparr> = Inr res"
    and 5: "r = \<lparr>errors = error res, warnings = warning res\<rparr>"
    unfolding validate_def c by (auto simp: bindE_eq_Inr)
  from 4 have "foldE (visit_path jsSpec (JObj (set_member k (JStr ''off'') ops))) (entries paths)
      \<lparr>error = [], warning = []\<rparr> = Inr res"
    by (rule foldE_sim [rotated]) (rule visit_path_sim [OF a])
  then show "validate arg config_off = Inr r"
    unfolding validate_def c_off by (simp add: 1 2 3 5)
next
  fix r
  assume r: "validate arg config_error = Inr r"
  have a: "error_instead k (JObj ops) (JObj (set_member k (JStr ''error'') ops))"
    unfolding error_instead_def using v by (auto simp: getp_set_member simp del: getp.simps)
  from validate_throws [OF a c c_error r]
  show "if rule_findings (message_of k) (errors r) = [] then validate arg config = Inr r
        else (\<exists>e. validate arg config = Inl e)" .
qed

theorem unroutable_severity_acts_as_off_witness:
  "validate
     (JObj [(''jsSpec'', one_operation ''/pets'' ''head''
        (JObj [(''operationId'', JStr ''listPets''), (''summary'', JStr ''List pets'')]))])
     (config_of (JObj [(''no_summary'', JStr ''info'')])) =
     Inr \<lparr>errors = [], warnings = []\<rparr> \<and>
   validate
     (JObj [(''jsSpec'', one_operation ''/pets'' ''head''
        (JObj [(''operationId'', JStr ''listPets''), (''summary'', JStr ''List pets'')]))])
     (config_of (JObj (set_member ''no_summary'' (JStr ''off'') [(''no_summary'', JStr ''info'')]))) =
     Inr \<lparr>errors = [], warnings = []\<rparr> \<and>
   validate
     (JObj [(''jsSpec'', one_operation ''/pets'' ''head'' (JObj [(''operationId'', JStr ''listPets'')]))])
     (config_of (JObj (set_member ''no_summary'' (JStr ''error'') [(''no_summary'', JStr ''info'')]))) =
     Inr \<lparr>errors = [\<lparr>path = ''paths./pets.head.summary'', message = msg_summary\<rparr>],
          warnings = []\<rparr> \<and>
   (\<exists>e. validate
     (JObj [(''jsSpec'', one_operation ''/pets'' ''head'' (JObj [(''operationId'', JStr ''listPets'')]))])
     (config_of (JObj [(''no_summary'', JStr ''info'')])) = Inl e)"
proof -
  have r: "validate
     (JObj [(''jsSpec'', one_operation ''/pets'' ''head''
        (JObj [(''operationId'', JStr ''listPets''), (''summary'', JStr ''List pets'')]))])
     (config_of (JObj [(''no_summary'', JStr ''info'')])) =
     Inr \<lparr>errors = [], warnings = []\<rparr>"
    by code_simp
  have r': "validate
     (JObj [(''jsSpec'', one_operation ''/pets'' ''head'' (JObj [(''operationId'', JStr ''listPets'')]))])
     (config_of (JObj (set_member ''no_summary'' (JStr ''error'') [(''no_summary'', JStr ''info'')]))) =
     Inr \<lparr>errors = [\<lparr>path = ''paths./pets.head.summary'', message = msg_summary\<rparr>],
          warnings = []\<rparr>"
    by code_simp
  have c: "getp (config_of (JObj [(''no_summary'', JStr ''info'')])) ''operations'' =
      Inr (JObj [(''no_summary'', JStr ''info'')])"
    by (simp add: config_of_def)
  have c_off: "getp (config_of (JObj (set_member ''no_summary'' (JStr ''off'')
        [(''no_summary'', JStr ''info'')]))) ''operations'' =
      Inr (JObj (set_member ''no_summary'' (JStr ''off'') [(''no_summary'', JStr ''info'')]))"
    by (simp add: config_of_def)
  have c_error: "getp (config_of (JObj (set_member ''no_summary'' (JStr ''error'')
        [(''no_summary'', JStr ''info'')]))) ''operations'' =
      Inr (JObj (set_member ''no_summary'' (JStr ''error'') [(''no_summary'', JStr ''info'')]))"
    by (simp add: config_of_def)
  have v: "getp (JObj [(''no_summary'', JStr ''info'')]) ''no_summary'' = Inr (JStr ''info'')"
    by simp
  have u: "unroutable (JStr ''info'')"
    by (simp add: unroutable_def)
  have m: "rule_findings (message_of ''no_summary'')
      [\<lparr>path = ''paths./pets.head.summary'', message = msg_summary\<rparr>] \<noteq> []"
    by (simp add: message_of_simps)
  from unroutable_severity_acts_as_off [OF v u c c_off c_error,
      of "JObj [(''jsSpec'', one_operation ''/pets'' ''head''
        (JObj [(''operationId'', JStr ''listPets''), (''summary'', JStr ''List pets'')]))]"] r
  have 1: "validate
     (JObj [(''jsSpec'', one_operation ''/pets'' ''head''
        (JObj [(''operationId'', JStr ''listPets''), (''summary'', JStr ''List pets'')]))])
     (config_of (JObj (set_member ''no_summary'' (JStr ''off'') [(''no_summary'', JStr ''info'')]))) =
     Inr \<lparr>errors = [], warnings = []\<rparr>"
    by blast
  from unroutable_severity_acts_as_off [OF v u c c_off c_error,
      of "JObj [(''jsSpec'', one_operation ''/pets'' ''head'' (JObj [(''operationId'', JStr ''listPets'')]))]"]
    r' m
  have 2: "\<exists>e. validate
     (JObj [(''jsSpec'', one_operation ''/pets'' ''head'' (JObj [(''operationId'', JStr ''listPets'')]))])
     (config_of (JObj [(''no_summary'', JStr ''info'')])) = Inl e"
    by (metis findings.select_convs(1))
  from r r' 1 2 show ?thesis by simp
qed

text \<open>
  Claim C4 as stated fails on an operation without a summary when \<^verbatim>\<open>no_summary\<close> is
  \<^verbatim>\<open>"info"\<close>: the call throws a TypeError.
\<close>

theorem unknown_severity_counterexample:
  "validate (JObj [(''jsSpec'', one_operation ''/pets'' ''head'' (JObj []))])
     (config_of (only_rule ''no_summary'' (JStr ''info''))) = Inl TypeError"
  by code_simp

text \<open>
  Claim C5: \<^verbatim>\<open>validate\<close> reads the severities from the \<^verbatim>\<open>operations\<close> member of its
  configuration.
  \<^item> Two configurations with the same \<^verbatim>\<open>operations\<close> member give the same result,
    whatever else they hold at the top level.
  \<^item> With a configuration that has no \<^verbatim>\<open>operations\<close> member, a document with an
    operation that is visited and not excluded makes the call fail instead of returning
    findings: with a TypeError, from the lookup of a rule in \<^verbatim>\<open>undefined\<close>, when the
    document is one that some configuration validates.
  \<^item> The severity of a rule is its member of \<^verbatim>\<open>operations\<close>: every finding returned in
    a bucket carries the message of a rule whose member of \<^verbatim>\<open>operations\<close> names that
    bucket, and an operation of the document that plainly breaks a rule has the rule's
    finding in the bucket that this member names.
\<close>

theorem severities_read_from_operations:
  "(getp config ''operations'' = getp config' ''operations'' \<longrightarrow>
      validate arg config = validate arg config') \<and>
   (getp config ''operations'' = Inr JUndefined \<and> getp arg ''jsSpec'' = Inr jsSpec \<and>
    has_operation jsSpec \<longrightarrow>
      (\<exists>e. validate arg config = Inl e) \<and>
      (\<forall>config0 r. validate arg config0 = Inr r \<longrightarrow> validate arg config = Inl TypeError)) \<and>
   (\<forall>r operations.
      validate arg config = Inr r \<and> getp config ''operations'' = Inr operations \<longrightarrow>
        severity_routed operations ''error'' (errors r) \<and>
        severity_routed operations ''warning'' (warnings r) \<and>
        (\<forall>pathKey opKey op k member s.
           getp arg ''jsSpec'' = Inr jsSpec \<and>
           (pathKey, opKey, op) \<in> set (visited_operations jsSpec) \<and>
           plain_violation k jsSpec opKey op = Some member \<and> getp operations k = Inr s \<longrightarrow>
             (routes s ''error'' \<longrightarrow>
                \<lparr>path = op_path pathKey opKey member, message = message_of k\<rparr> \<in> set (errors r)) \<and>
             (routes s ''warning'' \<longrightarrow>
                \<lparr>path = op_path pathKey opKey member, message = message_of k\<rparr> \<in> set (warnings r))))"
proof (intro conjI impI allI)
  assume "getp config ''operations'' = getp config' ''operations''"
  then show "validate arg config = validate arg config'"
    by (simp add: validate_def)
next
  assume a: "getp config ''operations'' = Inr JUndefined \<and> getp arg ''jsSpec'' = Inr jsSpec \<and>
    has_operation jsSpec"
  then obtain paths where p: "getp jsSpec ''paths'' = Inr paths"
    and ex: "list_ex (\<lambda>(pathItem, pathKey).
              case pathKey of
                JStr k \<Rightarrow>
                  take 2 k \<noteq> ''x-'' \<and>
                  list_ex (\<lambda>(opKey, op). getp op ''x-sdk-exclude'' \<noteq> Inr (JBool True))
                    (pick pathItem methods)
              | _ \<Rightarrow> False) (entries paths)"
    by (auto simp: has_operation_def split: sum.splits)
  from ex obtain pathItem k where e: "(pathItem, JStr k) \<in> set (entries paths)"
    and k: "take 2 k \<noteq> ''x-''"
    and o: "list_ex (\<lambda>(opKey, op). getp op ''x-sdk-exclude'' \<noteq> Inr (JBool True)) (pick pathItem methods)"
    by (auto simp: list_ex_iff split: js.splits)
  have f: "foldE (visit_path jsSpec JUndefined) (entries paths) s \<noteq> Inr s'" for s s'
    by (rule foldE_fails [OF e]) (rule visit_path_without_config [OF k o])
  have "validate arg config \<noteq> Inr r" for r
    using a p f by (auto simp: validate_def bindE_eq_Inr)
  then show "\<exists>e. validate arg config = Inl e"
    by (cases "validate arg config") auto
next
  fix config0 r
  assume a: "getp config ''operations'' = Inr JUndefined \<and> getp arg ''jsSpec'' = Inr jsSpec \<and>
    has_operation jsSpec"
    and r: "validate arg config0 = Inr r"
  from config_lookup_fails [OF r] a show "validate arg config = Inl TypeError"
    by blast
next
  fix r operations
  assume "validate arg config = Inr r \<and> getp config ''operations'' = Inr operations"
  then show "severity_routed operations ''error'' (errors r)"
    using validate_routed by blast
next
  fix r operations
  assume "validate arg config = Inr r \<and> getp config ''operations'' = Inr operations"
  then show "severity_routed operations ''warning'' (warnings r)"
    using validate_routed by blast
next
  fix r operations pathKey opKey op k member s
  assume a: "validate arg config = Inr r \<and> getp config ''operations'' = Inr operations"
    and b: "getp arg ''jsSpec'' = Inr jsSpec \<and>
           (pathKey, opKey, op) \<in> set (visited_operations jsSpec) \<and>
           plain_violation k jsSpec opKey op = Some member \<and> getp operations k = Inr s"
    and c: "routes s ''error''"
  from a b have "(routes s ''error'' \<longrightarrow>
            \<lparr>path = op_path pathKey opKey member, message = message_of k\<rparr> \<in> set (errors r)) \<and>
         (routes s ''warning'' \<longrightarrow>
            \<lparr>path = op_path pathKey opKey member, message = message_of k\<rparr> \<in> set (warnings r))"
    using validate_plain_violation [of arg config r jsSpec operations pathKey opKey op k member s]
    by blast
  with c show "\<lparr>path = op_path pathKey opKey member, message = message_of k\<rparr> \<in> set (errors r)"
    by simp
next
  fix r operations pathKey opKey op k member s
  assume a: "validate arg config = Inr r \<and> getp config ''operations'' = Inr operations"
    and b: "getp arg ''jsSpec'' = Inr jsSpec \<and>
           (pathKey, opKey, op) \<in> set (visited_operations jsSpec) \<and>
           plain_violation k jsSpec opKey op = Some member \<and> getp operations k = Inr s"
    and c: "routes s ''warning''"
  from a b have "(routes s ''error'' \<longrightarrow>
            \<lparr>path = op_path pathKey opKey member, message = message_of k\<rparr> \<in> set (errors r)) \<and>
         (routes s ''warning'' \<longrightarrow>
            \<lparr>path = op_path pathKey opKey member, message = message_of k\<rparr> \<in> set (warnings r))"
    using validate_plain_violation [of arg config r jsSpec operations pathKey opKey op k member s]
    by blast
  with c show "\<lparr>path = op_path pathKey opKey member, message = message_of k\<rparr> \<in> set (warnings r)"
    by simp
qed

theorem severities_read_from_operations_witness:
  "validate (JObj [(''jsSpec'', one_operation ''/pets'' ''post'' (JObj []))])
     (JObj [(''no_summary'', JStr ''warning''), (''operations'', (JObj [(''no_consumes_for_put_or_post'', JStr ''error''), (''get_op_has_consumes'', JStr ''off''),
            (''no_produces'', JStr ''warning''), (''no_operation_id'', JStr ''error''),
            (''no_summary'', JStr ''error''), (''no_array_responses'', JStr ''off''),
            (''parameter_order'', JStr ''off'')]))]) =
   validate (JObj [(''jsSpec'', one_operation ''/pets'' ''post'' (JObj []))])
     (JObj [(''operations'', (JObj [(''no_consumes_for_put_or_post'', JStr ''error''), (''get_op_has_consumes'', JStr ''off''),
            (''no_produces'', JStr ''warning''), (''no_operation_id'', JStr ''error''),
            (''no_summary'', JStr ''error''), (''no_array_responses'', JStr ''off''),
            (''parameter_order'', JStr ''off'')]))]) \<and>
   validate (JObj [(''jsSpec'', one_operation ''/pets'' ''post'' (JObj []))])
     (JObj [(''no_summary'', JStr ''warning''), (''operations'', (JObj [(''no_consumes_for_put_or_post'', JStr ''error''), (''get_op_has_consumes'', JStr ''off''),
            (''no_produces'', JStr ''warning''), (''no_operation_id'', JStr ''error''),
            (''no_summary'', JStr ''error''), (''no_array_responses'', JStr ''off''),
            (''parameter_order'', JStr ''off'')]))]) =
     Inr \<lparr>errors = [\<lparr>path = ''paths./pets.post.consumes'', message = msg_consumes\<rparr>,
      \<lparr>path = ''paths./pets.post.operationId'', message = msg_operation_id\<rparr>,
      \<lparr>path = ''paths./pets.post.summary'', message = msg_summary\<rparr>], warnings = [\<lparr>path = ''paths./pets.post.produces'', message = msg_produces\<rparr>]\<rparr> \<and>
   \<lparr>path = op_path ''/pets'' ''post'' ''summary'', message = message_of ''no_summary''\<rparr> \<in>
     set (errors \<lparr>errors = [\<lparr>path = ''paths./pets.post.consumes'', message = msg_consumes\<rparr>,
      \<lparr>path = ''paths./pets.post.operationId'', message = msg_operation_id\<rparr>,
      \<lparr>path = ''paths./pets.post.summary'', message = msg_summary\<rparr>], warnings = [\<lparr>path = ''paths./pets.post.produces'', message = msg_produces\<rparr>]\<rparr>) \<and>
   \<lparr>path = op_path ''/pets'' ''post'' ''produces'', message = message_of ''no_produces''\<rparr> \<in>
     set (warnings \<lparr>errors = [\<lparr>path = ''paths./pets.post.consumes'', message = msg_consumes\<rparr>,
      \<lparr>path = ''paths./pets.post.operationId'', message = msg_operation_id\<rparr>,
      \<lparr>path = ''paths./pets.post.summary'', message = msg_summary\<rparr>], warnings = [\<lparr>path = ''paths./pets.post.produces'', message = msg_produces\<rparr>]\<rparr>) \<and>
   severity_routed (JObj [(''no_consumes_for_put_or_post'', JStr ''error''), (''get_op_has_consumes'', JStr ''off''),
            (''no_produces'', JStr ''warning''), (''no_operation_id'', JStr ''error''),
            (''no_summary'', JStr ''error''), (''no_array_responses'', JStr ''off''),
            (''parameter_order'', JStr ''off'')]) ''error''
     (errors \<lparr>errors = [\<lparr>path = ''paths./pets.post.consumes'', message = msg_consumes\<rparr>,
      \<lparr>path = ''paths./pets.post.operationId'', message = msg_operation_id\<rparr>,
      \<lparr>path = ''paths./pets.post.summary'', message = msg_summary\<rparr>], warnings = [\<lparr>path = ''paths./pets.post.produces'', message = msg_produces\<rparr>]\<rparr>) \<and>
   severity_routed (JObj [(''no_consumes_for_put_or_post'', JStr ''error''), (''get_op_has_consumes'', JStr ''off''),
            (''no_produces'', JStr ''warning''), (''no_operation_id'', JStr ''error''),
            (''no_summary'', JStr ''error''), (''no_array_responses'', JStr ''off''),
            (''parameter_order'', JStr ''off'')]) ''warning''
     (warnings \<lparr>errors = [\<lparr>path = ''paths./pets.post.consumes'', message = msg_consumes\<rparr>,
      \<lparr>path = ''paths./pets.post.operationId'', message = msg_operation_id\<rparr>,
      \<lparr>path = ''paths./pets.post.summary'', message = msg_summary\<rparr>], warnings = [\<lparr>path = ''paths./pets.post.produces'', message = msg_produces\<rparr>]\<rparr>) \<and>
   has_operation (one_operation ''/pets'' ''post'' (JObj [])) \<and>
   validate (JObj [(''jsSpec'', one_operation ''/pets'' ''post'' (JObj []))]) (JObj [(''no_summary'', JStr ''error'')]) = Inl TypeError"
proof -
  have a: "getp (JObj [(''no_summary'', JStr ''warning''), (''operations'', (JObj [(''no_consumes_for_put_or_post'', JStr ''error''), (''get_op_has_consumes'', JStr ''off''),
            (''no_produces'', JStr ''warning''), (''no_operation_id'', JStr ''error''),
            (''no_summary'', JStr ''error''), (''no_array_responses'', JStr ''off''),
            (''parameter_order'', JStr ''off'')]))]) ''operations'' =
      getp (JObj [(''operations'', (JObj [(''no_consumes_for_put_or_post'', JStr ''error''), (''get_op_has_consumes'', JStr ''off''),
            (''no_produces'', JStr ''warning''), (''no_operation_id'', JStr ''error''),
            (''no_summary'', JStr ''error''), (''no_array_responses'', JStr ''off''),
            (''parameter_order'', JStr ''off'')]))]) ''operations''"
    by simp
  have o: "getp (JObj [(''no_summary'', JStr ''warning''), (''operations'', (JObj [(''no_consumes_for_put_or_post'', JStr ''error''), (''get_op_has_consumes'', JStr ''off''),
            (''no_produces'', JStr ''warning''), (''no_operation_id'', JStr ''error''),
            (''no_summary'', JStr ''error''), (''no_array_responses'', JStr ''off''),
            (''parameter_order'', JStr ''off'')]))]) ''operations'' =
      Inr (JObj [(''no_consumes_for_put_or_post'', JStr ''error''), (''get_op_has_consumes'', JStr ''off''),
            (''no_produces'', JStr ''warning''), (''no_operation_id'', JStr ''error''),
            (''no_summary'', JStr ''error''), (''no_array_responses'', JStr ''off''),
            (''parameter_order'', JStr ''off'')])"
    by simp
  have b: "getp (JObj [(''no_summary'', JStr ''error'')]) ''operations'' = Inr JUndefined"
    by simp
  have c: "getp (JObj [(''jsSpec'', one_operation ''/pets'' ''post'' (JObj []))]) ''jsSpec'' = Inr (one_operation ''/pets'' ''post'' (JObj []))"
    by simp
  have d: "has_operation (one_operation ''/pets'' ''post'' (JObj []))"
    by code_simp
  have e: "validate (JObj [(''jsSpec'', one_operation ''/pets'' ''post'' (JObj []))])
     (JObj [(''no_summary'', JStr ''warning''), (''operations'', (JObj [(''no_consumes_for_put_or_post'', JStr ''error''), (''get_op_has_consumes'', JStr ''off''),
            (''no_produces'', JStr ''warning''), (''no_operation_id'', JStr ''error''),
            (''no_summary'', JStr ''error''), (''no_array_responses'', JStr ''off''),
            (''parameter_order'', JStr ''off'')]))]) =
     Inr \<lparr>errors = [\<lparr>path = ''paths./pets.post.consumes'', message = msg_consumes\<rparr>,
      \<lparr>path = ''paths./pets.post.operationId'', message = msg_operation_id\<rparr>,
      \<lparr>path = ''paths./pets.post.summary'', message = msg_summary\<rparr>], warnings = [\<lparr>path = ''paths./pets.post.produces'', message = msg_produces\<rparr>]\<rparr>"
    by code_simp
  have v: "(''/pets'', ''post'', JObj []) \<in> set (visited_operations (one_operation ''/pets'' ''post'' (JObj [])))"
    by code_simp
  have p1: "plain_violation ''no_summary'' (one_operation ''/pets'' ''post'' (JObj [])) ''post'' (JObj []) = Some ''summary''"
    by code_simp
  have p2: "plain_violation ''no_produces'' (one_operation ''/pets'' ''post'' (JObj [])) ''post'' (JObj []) = Some ''produces''"
    by code_simp
  have s1: "getp (JObj [(''no_consumes_for_put_or_post'', JStr ''error''), (''get_op_has_consumes'', JStr ''off''),
            (''no_produces'', JStr ''warning''), (''no_operation_id'', JStr ''error''),
            (''no_summary'', JStr ''error''), (''no_array_responses'', JStr ''off''),
            (''parameter_order'', JStr ''off'')]) ''no_summary'' = Inr (JStr ''error'')"
    by simp
  have s2: "getp (JObj [(''no_consumes_for_put_or_post'', JStr ''error''), (''get_op_has_consumes'', JStr ''off''),
            (''no_produces'', JStr ''warning''), (''no_operation_id'', JStr ''error''),
            (''no_summary'', JStr ''error''), (''no_array_responses'', JStr ''off''),
            (''parameter_order'', JStr ''off'')]) ''no_produces'' = Inr (JStr ''warning'')"
    by simp
  have r1: "routes (JStr ''error'') ''error''"
    by (simp add: routes_def)
  have r2: "routes (JStr ''warning'') ''warning''"
    by (simp add: routes_def)
  note t = severities_read_from_operations
      [of "(JObj [(''no_summary'', JStr ''warning''), (''operations'', (JObj [(''no_consumes_for_put_or_post'', JStr ''error''), (''get_op_has_consumes'', JStr ''off''),
            (''no_produces'', JStr ''warning''), (''no_operation_id'', JStr ''error''),
            (''no_summary'', JStr ''error''), (''no_array_responses'', JStr ''off''),
            (''parameter_order'', JStr ''off'')]))])"
          "(JObj [(''operations'', (JObj [(''no_consumes_for_put_or_post'', JStr ''error''), (''get_op_has_consumes'', JStr ''off''),
            (''no_produces'', JStr ''warning''), (''no_operation_id'', JStr ''error''),
            (''no_summary'', JStr ''error''), (''no_array_responses'', JStr ''off''),
            (''parameter_order'', JStr ''off'')]))])"
          "(JObj [(''jsSpec'', one_operation ''/pets'' ''post'' (JObj []))])"
          "(one_operation ''/pets'' ''post'' (JObj []))"]
  from t a have 1: "validate (JObj [(''jsSpec'', one_operation ''/pets'' ''post'' (JObj []))])
     (JObj [(''no_summary'', JStr ''warning''), (''operations'', (JObj [(''no_consumes_for_put_or_post'', JStr ''error''), (''get_op_has_consumes'', JStr ''off''),
            (''no_produces'', JStr ''warning''), (''no_operation_id'', JStr ''error''),
            (''no_summary'', JStr ''error''), (''no_array_responses'', JStr ''off''),
            (''parameter_order'', JStr ''off'')]))]) =
   validate (JObj [(''jsSpec'', one_operation ''/pets'' ''post'' (JObj []))])
     (JObj [(''operations'', (JObj [(''no_consumes_for_put_or_post'', JStr ''error''), (''get_op_has_consumes'', JStr ''off''),
            (''no_produces'', JStr ''warning''), (''no_operation_id'', JStr ''error''),
            (''no_summary'', JStr ''error''), (''no_array_responses'', JStr ''off''),
            (''parameter_order'', JStr ''off'')]))])"
    by blast
  from t e o have 2: "severity_routed (JObj [(''no_consumes_for_put_or_post'', JStr ''error''), (''get_op_has_consumes'', JStr ''off''),
            (''no_produces'', JStr ''warning''), (''no_operation_id'', JStr ''error''),
            (''no_summary'', JStr ''error''), (''no_array_responses'', JStr ''off''),
            (''parameter_order'', JStr ''off'')]) ''error''
     (errors \<lparr>errors = [\<lparr>path = ''paths./pets.post.consumes'', message = msg_consumes\<rparr>,
      \<lparr>path = ''paths./pets.post.operationId'', message = msg_operation_id\<rparr>,
      \<lparr>path = ''paths./pets.post.summary'', message = msg_summary\<rparr>], warnings = [\<lparr>path = ''paths./pets.post.produces'', message = msg_produces\<rparr>]\<rparr>) \<and>
   severity_routed (JObj [(''no_consumes_for_put_or_post'', JStr ''error''), (''get_op_has_consumes'', JStr ''off''),
            (''no_produces'', JStr ''warning''), (''no_operation_id'', JStr ''error''),
            (''no_summary'', JStr ''error''), (''no_array_responses'', JStr ''off''),
            (''parameter_order'', JStr ''off'')]) ''warning''
     (warnings \<lparr>errors = [\<lparr>path = ''paths./pets.post.consumes'', message = msg_consumes\<rparr>,
      \<lparr>path = ''paths./pets.post.operationId'', message = msg_operation_id\<rparr>,
      \<lparr>path = ''paths./pets.post.summary'', message = msg_summary\<rparr>], warnings = [\<lparr>path = ''paths./pets.post.produces'', message = msg_produces\<rparr>]\<rparr>)"
    by blast
  from t e o c v p1 s1 r1 have 3: "\<lparr>path = op_path ''/pets'' ''post'' ''summary'', message = message_of ''no_summary''\<rparr> \<in>
     set (errors \<lparr>errors = [\<lparr>path = ''paths./pets.post.consumes'', message = msg_consumes\<rparr>,
      \<lparr>path = ''paths./pets.post.operationId'', message = msg_operation_id\<rparr>,
      \<lparr>path = ''paths./pets.post.summary'', message = msg_summary\<rparr>], warnings = [\<lparr>path = ''paths./pets.post.produces'', message = msg_produces\<rparr>]\<rparr>)"
    by blast
  from t e o c v p2 s2 r2 have 4: "\<lparr>path = op_path ''/pets'' ''post'' ''produces'', message = message_of ''no_produces''\<rparr> \<in>
     set (warnings \<lparr>errors = [\<lparr>path = ''paths./pets.post.consumes'', message = msg_consumes\<rparr>,
      \<lparr>path = ''paths./pets.post.operationId'', message = msg_operation_id\<rparr>,
      \<lparr>path = ''paths./pets.post.summary'', message = msg_summary\<rparr>], warnings = [\<lparr>path = ''paths./pets.post.produces'', message = msg_produces\<rparr>]\<rparr>)"
    by blast
  from severities_read_from_operations
      [of "(JObj [(''no_summary'', JStr ''error'')])" "(JObj [(''no_summary'', JStr ''error'')])" "(JObj [(''jsSpec'', one_operation ''/pets'' ''post'' (JObj []))])" "(one_operation ''/pets'' ''post'' (JObj []))"] b c d e
  have 5: "validate (JObj [(''jsSpec'', one_operation ''/pets'' ''post'' (JObj []))]) (JObj [(''no_summary'', JStr ''error'')]) = Inl TypeError"
    by blast
  from 1 2 3 4 5 d e show ?thesis
    by blast
qed

text \<open>
  Claim C6, as amended: a visited GET operation whose \<^verbatim>\<open>consumes\<close> is truthy (an array,
  the empty array included, an object, a non-empty string, a number other than 0,
  \<^verbatim>\<open>true\<close>) gets exactly one R2 finding, at \<^verbatim>\<open>paths.<pathKey>.get.consumes\<close>, in the bucket
  of the severity of \<^verbatim>\<open>get_op_has_consumes\<close> (none when that is \<^verbatim>\<open>off\<close>); a GET operation
  without \<^verbatim>\<open>consumes\<close>, or whose \<^verbatim>\<open>consumes\<close> is falsy (\<^verbatim>\<open>null\<close>, \<^verbatim>\<open>false\<close>, 0, the empty
  string), gets none.
\<close>

theorem get_consumes_finding:
  assumes v: "visit_op jsSpec config pathKey (''get'', op) res = Inr res'"
    and x: "getp op ''x-sdk-exclude'' \<noteq> Inr (JBool True)"
    and c: "getp op ''consumes'' = Inr c"
    and s: "getp config ''get_op_has_consumes'' = Inr s"
  shows "rule_findings msg_get_consumes (error res') =
           rule_findings msg_get_consumes (error res) @
           (if truthy c \<and> routes s ''error''
            then [\<lparr>path = ''paths.'' @ pathKey @ ''.get.consumes'', message = msg_get_consumes\<rparr>]
            else []) \<and>
         rule_findings msg_get_consumes (warning res') =
           rule_findings msg_get_consumes (warning res) @
           (if truthy c \<and> routes s ''warning''
            then [\<lparr>path = ''paths.'' @ pathKey @ ''.get.consumes'', message = msg_get_consumes\<rparr>]
            else [])"
proof -
  from visit_op_steps [OF v] x obtain r1 r2 r3 r4 r5 r6 where st:
      "check_consumes jsSpec config pathKey ''get'' op res = Inr r1"
      "check_produces jsSpec config pathKey ''get'' op r1 = Inr r2"
      "check_get_consumes config pathKey ''get'' op r2 = Inr r3"
      "check_array_responses jsSpec config pathKey ''get'' op r3 = Inr r4"
      "check_operation_id config pathKey ''get'' op r4 = Inr r5"
      "check_summary config pathKey ''get'' op r5 = Inr r6"
      "check_parameter_order jsSpec config pathKey ''get'' op r6 = Inr res'"
    by blast
  note k1 = check_consumes_keeps [OF st(1), of msg_get_consumes]
  note k2 = check_produces_keeps [OF st(2), of msg_get_consumes]
  note e3 = check_get_consumes_exact [OF st(3) c s]
  note k4 = check_array_responses_keeps [OF st(4), of msg_get_consumes]
  note k5 = check_operation_id_keeps [OF st(5), of msg_get_consumes]
  note k6 = check_summary_keeps [OF st(6), of msg_get_consumes]
  note k7 = check_parameter_order_keeps [OF st(7), of msg_get_consumes]
  have 3: "rule_findings msg_get_consumes (error r3) =
             rule_findings msg_get_consumes (error r2) @
             (if truthy c \<and> routes s ''error''
              then [\<lparr>path = ''paths.'' @ pathKey @ ''.get.consumes'', message = msg_get_consumes\<rparr>]
              else [])"
    by (subst e3) (simp add: op_path_def)
  have w3: "rule_findings msg_get_consumes (warning r3) =
             rule_findings msg_get_consumes (warning r2) @
             (if truthy c \<and> routes s ''warning''
              then [\<lparr>path = ''paths.'' @ pathKey @ ''.get.consumes'', message = msg_get_consumes\<rparr>]
              else [])"
    by (subst e3) (simp add: op_path_def)
  from k1 k2 3 w3 k4 k5 k6 k7 show ?thesis by simp
qed

theorem get_consumes_finding_witness:
  "visit_op (JObj []) (only_rule ''get_op_has_consumes'' (JStr ''warning'')) ''/pets''
     (''get'', JObj [(''consumes'', JArr [])]) empty_result =
     Inr \<lparr>error = [],
          warning = [\<lparr>path = ''paths./pets.get.consumes'', message = msg_get_consumes\<rparr>]\<rparr> \<and>
   rule_findings msg_get_consumes
     [\<lparr>path = ''paths./pets.get.consumes'', message = msg_get_consumes\<rparr>] =
     [\<lparr>path = ''paths.'' @ ''/pets'' @ ''.get.consumes'', message = msg_get_consumes\<rparr>]"
proof -
  have h: "visit_op (JObj []) (only_rule ''get_op_has_consumes'' (JStr ''warning'')) ''/pets''
     (''get'', JObj [(''consumes'', JArr [])]) empty_result =
     Inr \<lparr>error = [],
          warning = [\<lparr>path = ''paths./pets.get.consumes'', message = msg_get_consumes\<rparr>]\<rparr>"
    by code_simp
  have x: "getp (JObj [(''consumes'', JArr [])]) ''x-sdk-exclude'' \<noteq> Inr (JBool True)"
    by simp
  have c: "getp (JObj [(''consumes'', JArr [])]) ''consumes'' = Inr (JArr [])"
    by simp
  have s: "getp (only_rule ''get_op_has_consumes'' (JStr ''warning'')) ''get_op_has_consumes'' =
      Inr (JStr ''warning'')"
    by code_simp
  have r: "routes (JStr ''warning'') ''warning''"
    by (simp add: routes_def)
  from get_consumes_finding [OF h x c s] h r show ?thesis
    by (simp add: empty_result_def)
qed

text \<open>
  Claim C6 as stated (any value of \<^verbatim>\<open>consumes\<close>) fails on a GET operation that declares
  \<^verbatim>\<open>consumes: null\<close>: with \<^verbatim>\<open>get_op_has_consumes\<close> an error, no finding is produced.
\<close>

theorem null_consumes_counterexample:
  "map_of [(''consumes'', JNull)] ''consumes'' = Some JNull \<and>
   validate (JObj [(''jsSpec'', one_operation ''/pets'' ''get'' (JObj [(''consumes'', JNull)]))])
     (config_of (only_rule ''get_op_has_consumes'' (JStr ''error''))) =
     Inr \<lparr>errors = [], warnings = []\<rparr>"
  by code_simp



text \<open>
  Claim C8: a reference that starts with \<^verbatim>\<open>#/\<close> is cut into its segments, each segment
  is wrapped as \<^verbatim>\<open>["segment"]\<close> so that it is one literal key for \<^verbatim>\<open>at\<close>, and the
  reference resolves to the value stored under those keys. That holds for a segment with
  neither a double quote nor a backslash, a dot or a bracket included
  (\<open>literal_segments_resolve\<close>, \<open>dotted_key_reference_resolves\<close>). It does not hold for a
  segment with a double quote or a backslash, which the wrapping does not escape: the document
  here stores a schema under the key \<^verbatim>\<open>Pet"s\<close> of \<^verbatim>\<open>definitions\<close>, and the reference
  \<^verbatim>\<open>#/definitions/Pet"s\<close> resolves to \<^verbatim>\<open>undefined\<close>.
\<close>

theorem quoted_key_reference_unresolved:
  "lookup_keys
     (JObj [(''definitions'',
        JObj [(''Pet'' @ [CHR 0x22] @ ''s'', JObj [(''type'', JStr ''array'')])])])
     [''definitions'', ''Pet'' @ [CHR 0x22] @ ''s''] = Some (JObj [(''type'', JStr ''array'')]) \<and>
   resolveRef (JObj [(''$ref'', JStr (''#/definitions/Pet'' @ [CHR 0x22] @ ''s''))])
     (JObj [(''definitions'',
        JObj [(''Pet'' @ [CHR 0x22] @ ''s'', JObj [(''type'', JStr ''array'')])])]) =
     Inr JUndefined"
  by code_simp

text \<open>
  Claim C9: visiting a HEAD operation adds no R3 finding (produces required) to either
  bucket, whatever \<^verbatim>\<open>produces\<close> the operation and the document have.
\<close>

theorem head_no_produces_finding:
  assumes "visit_op jsSpec config pathKey (''head'', op) res = Inr res'"
  shows "rule_findings msg_produces (error res') = rule_findings msg_produces (error res) \<and>
         rule_findings msg_produces (warning res') = rule_findings msg_produces (warning res)"
proof -
  from visit_op_steps [OF assms] consider
    (excluded) "res' = res"
  | (visited) r1 r2 r3 r4 r5 r6 where
      "check_consumes jsSpec config pathKey ''head'' op res = Inr r1"
      "check_produces jsSpec config pathKey ''head'' op r1 = Inr r2"
      "check_get_consumes config pathKey ''head'' op r2 = Inr r3"
      "check_array_responses jsSpec config pathKey ''head'' op r3 = Inr r4"
      "check_operation_id config pathKey ''head'' op r4 = Inr r5"
      "check_summary config pathKey ''head'' op r5 = Inr r6"
      "check_parameter_order jsSpec config pathKey ''head'' op r6 = Inr res'"
    by blast
  then show ?thesis
  proof cases
    case excluded
    then show ?thesis by simp
  next
    case visited
    have 1: "rule_findings msg_produces (error r1) = rule_findings msg_produces (error res) \<and>
             rule_findings msg_produces (warning r1) = rule_findings msg_produces (warning res)"
      using emits_keeps [OF check_consumes_emits [OF visited(1)], of msg_produces] by simp
    have 2: "r2 = r1"
      using visited(2) by (simp add: check_produces_def)
    have 3: "rule_findings msg_produces (error r3) = rule_findings msg_produces (error r2) \<and>
             rule_findings msg_produces (warning r3) = rule_findings msg_produces (warning r2)"
      using emits_keeps [OF check_get_consumes_emits [OF visited(3)], of msg_produces] by simp
    have 4: "rule_findings msg_produces (error r4) = rule_findings msg_produces (error r3) \<and>
             rule_findings msg_produces (warning r4) = rule_findings msg_produces (warning r3)"
      using emits_keeps [OF check_array_responses_emits [OF visited(4)], of msg_produces] by simp
    have 5: "rule_findings msg_produces (error r5) = rule_findings msg_produces (error r4) \<and>
             rule_findings msg_produces (warning r5) = rule_findings msg_produces (warning r4)"
      using emits_keeps [OF check_operation_id_emits [OF visited(5)], of msg_produces] by simp
    have 6: "rule_findings msg_produces (error r6) = rule_findings msg_produces (error r5) \<and>
             rule_findings msg_produces (warning r6) = rule_findings msg_produces (warning r5)"
      using emits_keeps [OF check_summary_emits [OF visited(6)], of msg_produces] by simp
    have 7: "rule_findings msg_produces (error res') = rule_findings msg_produces (error r6) \<and>
             rule_findings msg_produces (warning res') = rule_findings msg_produces (warning r6)"
      using emits_keeps [OF check_parameter_order_emits [OF visited(7)], of msg_produces] by simp
    from 1 2 3 4 5 6 7 show ?thesis by simp
  qed
qed

theorem head_no_produces_finding_witness:
  "visit_op (JObj []) (rules_at (JStr ''error'')) ''/pets'' (''head'', JObj []) empty_result =
     Inr \<lparr>error = [\<lparr>path = ''paths./pets.head.operationId'', message = msg_operation_id\<rparr>,
                    \<lparr>path = ''paths./pets.head.summary'', message = msg_summary\<rparr>],
          warning = []\<rparr> \<and>
   rule_findings msg_produces
     [\<lparr>path = ''paths./pets.head.operationId'', message = msg_operation_id\<rparr>,
      \<lparr>path = ''paths./pets.head.summary'', message = msg_summary\<rparr>] =
     rule_findings msg_produces []"
proof -
  have h: "visit_op (JObj []) (rules_at (JStr ''error'')) ''/pets'' (''head'', JObj []) empty_result =
     Inr \<lparr>error = [\<lparr>path = ''paths./pets.head.operationId'', message = msg_operation_id\<rparr>,
                    \<lparr>path = ''paths./pets.head.summary'', message = msg_summary\<rparr>],
          warning = []\<rparr>"
    by code_simp
  from head_no_produces_finding [OF h] show ?thesis
    using h by (simp add: empty_result_def)
qed



end
